theory Spec2Isabelle
  imports Main "HOL-Library.Char_ord" "HOL-Library.List_Lexorder"
begin

section \<open>Data model (types/state.ts)\<close>

text \<open>
  The interfaces of \<^verbatim>\<open>types/state.ts\<close> as records and their string-literal unions as
  datatypes. An optional field \<^verbatim>\<open>f?: T\<close> is a \<open>T option\<close> (\<open>None\<close> is
  \<^verbatim>\<open>undefined\<close>). Field names that two interfaces share (\<^verbatim>\<open>id\<close>,
  \<^verbatim>\<open>status\<close>, \<^verbatim>\<open>storyId\<close>) carry the interface's name as a prefix.
\<close>

datatype task_status = TaskPending | TaskInProgress | TaskCompleted

record task =
  task_id :: string
  task_description :: string
  task_status :: task_status
  assignedTo :: "string option"

datatype story_status = Draft | Ready | InProgress | Review | Completed

record story =
  story_id :: string
  epicId :: string
  title :: string
  description :: string
  acceptanceCriteria :: "string list"
  tasks :: "task list"
  assignedAgent :: "string option"
  story_status :: story_status
  dependencies :: "string list option"

datatype agent_state = Idle | Working | Blocked | Error

record agentStatus =
  agent_id :: string
  agent_name :: string
  assignedStory :: "string option"
  agent_status :: agent_state
  progress :: "nat option"

datatype file_action = Create | Modify | Delete

record fileChange =
  path :: string
  action :: file_action
  content :: "string option"
  diff :: "string option"

datatype change_status = Pending | Reviewed | Merged

record codeChange =
  storyId :: string
  agentId :: string
  files :: "fileChange list"
  commitMessage :: string
  change_status :: change_status

record testFailure =
  test :: string
  error :: string

text \<open>
  The objects that \<^verbatim>\<open>qaReviewNode\<close> builds and stores in \<^verbatim>\<open>testResults\<close>:
  \<^verbatim>\<open>passed\<close>, \<^verbatim>\<open>failed\<close> and \<^verbatim>\<open>coverage\<close> are spread from the parsed
  review and may be missing; \<^verbatim>\<open>approved\<close> is copied from it.
\<close>

record testResult =
  tr_storyId :: string
  passed :: "int option"
  failed :: "int option"
  coverage :: "int option"
  failures :: "testFailure list"
  approved :: bool

datatype phase = PhAssign | PhExecute | PhReview | PhIntegrate | PhComplete

record swarmState =
  activeStories :: "story list"
  completedStories :: "story list"
  agents :: "agentStatus list"
  maxAgents :: nat
  storyQueue :: "story list"
  codeChanges :: "codeChange list"
  testResults :: "testResult list"
  phase :: phase
  blockedStories :: "string list"

section \<open>The content-generation service\<close>

text \<open>
  \<^verbatim>\<open>contentGenerator.generateContent\<close> is opaque. Each call either rejects (the node
  has no handler around the call, so the node itself rejects), or returns a text that the
  node's \<^verbatim>\<open>try\<close> block fails to turn into the expected structure
  (\<^verbatim>\<open>JSON.parse\<close> throws, or a property of \<^verbatim>\<open>undefined\<close> is read), or returns
  a text that parses. The three outcomes of each kind of call are a datatype; the service is
  a function from what the prompt is built from to an outcome.
\<close>

datatype gen_error = GenerationFailed

datatype draft_outcome =
    DraftThrows
  | DraftUnparseable
  | DraftParsed "task list option" "string list option"
    \<comment> \<open>\<^verbatim>\<open>parsed.story.tasks\<close> and \<^verbatim>\<open>parsed.story.hardDependencies\<close>\<close>

datatype dev_outcome =
    DevThrows
  | DevUnparseable
  | DevParsed "fileChange list" "fileChange list" string
    \<comment> \<open>\<^verbatim>\<open>parsed.files\<close>, \<^verbatim>\<open>parsed.tests\<close>, \<^verbatim>\<open>parsed.commitMessage\<close>\<close>

record review =
  rv_storyId :: "string option"
    \<comment> \<open>a \<^verbatim>\<open>storyId\<close> key inside \<^verbatim>\<open>review.testResults\<close>, which the spread
        would copy over the change's own\<close>
  rv_passed :: "int option"
  rv_failed :: "int option"
  rv_coverage :: "int option"
  rv_issues :: "string list"
  rv_approved :: bool

datatype qa_outcome =
    QaThrows
  | QaUnparseable
  | QaParsed review

record generator =
  draftGen :: "story \<Rightarrow> story list \<Rightarrow> draft_outcome"
    \<comment> \<open>the head story and the five queue entries quoted as context\<close>
  devGen :: "nat \<Rightarrow> agentStatus \<Rightarrow> story \<Rightarrow> dev_outcome"
    \<comment> \<open>position among the working agents, the agent, its story\<close>
  qaGen :: "nat \<Rightarrow> codeChange \<Rightarrow> story \<Rightarrow> qa_outcome"
    \<comment> \<open>position among the pending changes, the change, its story\<close>

section \<open>Swarm nodes (swarm/nodes.ts)\<close>

text \<open>
  A node returns a partial state; every channel of the graph merges with
  \<^verbatim>\<open>(x, y) => y ?? x\<close>, so the returned fields replace the old ones and the others
  stay. The model returns the merged state. A rejected node is \<open>Inl\<close>.
\<close>

subsection \<open>smDraftNode\<close>

definition isBlocked :: "story \<Rightarrow> story list \<Rightarrow> bool" where
  "isBlocked draftedStory completed =
     (case dependencies draftedStory of
        None \<Rightarrow> False
      | Some deps \<Rightarrow>
          list_ex (\<lambda>depId. list_all (\<lambda>s. story_id s \<noteq> depId) completed) deps)"

definition draftStory :: "story \<Rightarrow> task list option \<Rightarrow> string list option \<Rightarrow> story" where
  "draftStory nextStory ptasks hard =
     nextStory\<lparr> tasks := (case ptasks of None \<Rightarrow> [] | Some ts \<Rightarrow> ts),
                dependencies := (case hard of None \<Rightarrow> dependencies nextStory | Some ds \<Rightarrow> Some ds),
                story_status := Ready \<rparr>"

definition smDraftNode :: "generator \<Rightarrow> swarmState \<Rightarrow> gen_error + swarmState" where
  "smDraftNode g state =
     (case storyQueue state of
        [] \<Rightarrow> Inr (state\<lparr> phase := PhComplete \<rparr>)
      | nextStory # rest \<Rightarrow>
          (case draftGen g nextStory (take 5 rest) of
             DraftThrows \<Rightarrow> Inl GenerationFailed
           | DraftUnparseable \<Rightarrow> Inr (state\<lparr> phase := PhAssign \<rparr>)
           | DraftParsed ptasks hard \<Rightarrow>
               (let draftedStory = draftStory nextStory ptasks hard in
                if isBlocked draftedStory (completedStories state)
                then Inr (state\<lparr> storyQueue := rest,
                                 blockedStories := blockedStories state @ [story_id draftedStory],
                                 phase := PhAssign \<rparr>)
                else Inr (state\<lparr> storyQueue := rest,
                                 activeStories := activeStories state @ [draftedStory],
                                 phase := PhAssign \<rparr>))))"

subsection \<open>assignNode\<close>

text \<open>\<^verbatim>\<open>!s.assignedAgent\<close>: the field is undefined or the empty string.\<close>

definition unassigned :: "story \<Rightarrow> bool" where
  "unassigned s = (case assignedAgent s of None \<Rightarrow> True | Some a \<Rightarrow> a = [])"

definition idleAgents :: "swarmState \<Rightarrow> agentStatus list" where
  "idleAgents state = filter (\<lambda>a. agent_status a = Idle) (agents state)"

definition unassignedStories :: "swarmState \<Rightarrow> story list" where
  "unassignedStories state = filter unassigned (activeStories state)"

text \<open>An assignment \<^verbatim>\<open>{storyId, agentId}\<close> is a pair, story id first.\<close>

definition assignments :: "swarmState \<Rightarrow> (string \<times> string) list" where
  "assignments state =
     map (\<lambda>(s, a). (story_id s, agent_id a))
       (zip (take (length (idleAgents state)) (unassignedStories state)) (idleAgents state))"

definition assignNode :: "swarmState \<Rightarrow> swarmState" where
  "assignNode state =
     (if length (idleAgents state) = 0 \<or> length (unassignedStories state) = 0
      then state\<lparr> phase := PhExecute \<rparr>
      else
        (let asg = assignments state;
             updatedStories =
               map (\<lambda>s. case find (\<lambda>a. fst a = story_id s) asg of
                          Some a \<Rightarrow> s\<lparr> assignedAgent := Some (snd a), story_status := InProgress \<rparr>
                        | None \<Rightarrow> s)
                   (activeStories state);
             updatedAgents =
               map (\<lambda>agent. case find (\<lambda>a. snd a = agent_id agent) asg of
                          Some a \<Rightarrow> agent\<lparr> agent_status := Working,
                                           assignedStory := Some (fst a),
                                           progress := Some 0 \<rparr>
                        | None \<Rightarrow> agent)
                   (agents state)
         in state\<lparr> activeStories := updatedStories,
                    agents := updatedAgents,
                    phase := PhExecute \<rparr>))"

subsection \<open>devSwarmNode\<close>

text \<open>
  One promise per working agent. It resolves to \<^verbatim>\<open>null\<close> when the agent's story is
  not active or the text does not parse, to a code change otherwise; it rejects when the
  service rejects, and then \<^verbatim>\<open>Promise.all\<close> rejects.
\<close>

datatype 'a settled = Rejected | Fulfilled "'a option"

definition devPromise :: "generator \<Rightarrow> swarmState \<Rightarrow> nat \<times> agentStatus \<Rightarrow> codeChange settled" where
  "devPromise g state ia =
     (case find (\<lambda>s. Some (story_id s) = assignedStory (snd ia)) (activeStories state) of
        None \<Rightarrow> Fulfilled None
      | Some s \<Rightarrow>
          (case devGen g (fst ia) (snd ia) s of
             DevThrows \<Rightarrow> Rejected
           | DevUnparseable \<Rightarrow> Fulfilled None
           | DevParsed fs ts msg \<Rightarrow>
               Fulfilled (Some \<lparr> storyId = story_id s, agentId = agent_id (snd ia),
                                 files = fs @ ts, commitMessage = msg,
                                 change_status = Pending \<rparr>)))"

fun promiseAll :: "'a settled list \<Rightarrow> gen_error + 'a option list" where
  "promiseAll [] = Inr []"
| "promiseAll (Rejected # ps) = Inl GenerationFailed"
| "promiseAll (Fulfilled r # ps) =
     (case promiseAll ps of Inl e \<Rightarrow> Inl e | Inr rs \<Rightarrow> Inr (r # rs))"

definition nonNull :: "'a option list \<Rightarrow> 'a list" where
  "nonNull rs = List.map_filter (\<lambda>r. r) rs"

definition workingAgents :: "swarmState \<Rightarrow> agentStatus list" where
  "workingAgents state = filter (\<lambda>a. agent_status a = Working) (agents state)"

definition devSwarmNode :: "generator \<Rightarrow> swarmState \<Rightarrow> gen_error + swarmState" where
  "devSwarmNode g state =
     (if length (workingAgents state) = 0 then Inr (state\<lparr> phase := PhReview \<rparr>)
      else
        (case promiseAll (map (devPromise g state) (enumerate 0 (workingAgents state))) of
           Inl e \<Rightarrow> Inl e
         | Inr rs \<Rightarrow>
             (let changes = nonNull rs;
                  updatedAgents =
                    map (\<lambda>agent. if list_ex (\<lambda>c. agentId c = agent_id agent) changes
                                  then agent\<lparr> agent_status := Idle, progress := Some 100 \<rparr>
                                  else agent)
                        (agents state)
              in Inr (state\<lparr> codeChanges := codeChanges state @ changes,
                              agents := updatedAgents,
                              phase := PhReview \<rparr>))))"

subsection \<open>qaReviewNode\<close>

definition reviewResult :: "codeChange \<Rightarrow> review \<Rightarrow> testResult" where
  "reviewResult change rv =
     \<lparr> tr_storyId = (case rv_storyId rv of None \<Rightarrow> storyId change | Some i \<Rightarrow> i),
       passed = rv_passed rv, failed = rv_failed rv, coverage = rv_coverage rv,
       failures = map (\<lambda>issue. \<lparr> test = ''QA Review'', error = issue \<rparr>) (rv_issues rv),
       approved = rv_approved rv \<rparr>"

definition reviewPromise :: "generator \<Rightarrow> swarmState \<Rightarrow> nat \<times> codeChange \<Rightarrow> testResult settled" where
  "reviewPromise g state ic =
     (case find (\<lambda>s. story_id s = storyId (snd ic)) (activeStories state) of
        None \<Rightarrow> Fulfilled None
      | Some s \<Rightarrow>
          (case qaGen g (fst ic) (snd ic) s of
             QaThrows \<Rightarrow> Rejected
           | QaUnparseable \<Rightarrow> Fulfilled None
           | QaParsed rv \<Rightarrow> Fulfilled (Some (reviewResult (snd ic) rv))))"

text \<open>\<^verbatim>\<open>r.failed > 0\<close>; a missing count compares false.\<close>

definition hasFailed :: "testResult \<Rightarrow> bool" where
  "hasFailed r = (case failed r of None \<Rightarrow> False | Some n \<Rightarrow> n > 0)"

definition qaReviewNode :: "generator \<Rightarrow> swarmState \<Rightarrow> gen_error + swarmState" where
  "qaReviewNode g state =
     (let pendingChanges = filter (\<lambda>c. change_status c = Pending) (codeChanges state) in
      if length pendingChanges = 0 then Inr (state\<lparr> phase := PhIntegrate \<rparr>)
      else
        (case promiseAll (map (reviewPromise g state) (enumerate 0 pendingChanges)) of
           Inl e \<Rightarrow> Inl e
         | Inr rs \<Rightarrow>
             (let results = nonNull rs;
                  updatedChanges =
                    map (\<lambda>change.
                           case find (\<lambda>r. tr_storyId r = storyId change) results of
                             Some r \<Rightarrow> if approved r then change\<lparr> change_status := Reviewed \<rparr>
                                       else change
                           | None \<Rightarrow> change)
                        (codeChanges state);
                  hasFailures = list_ex hasFailed results
              in Inr (state\<lparr> testResults := results,
                              codeChanges := updatedChanges,
                              phase := (if hasFailures then PhExecute else PhIntegrate) \<rparr>))))"

subsection \<open>integrateNode\<close>

definition allDepsCompleted :: "story \<Rightarrow> story list \<Rightarrow> bool" where
  "allDepsCompleted blockedStory done =
     (case dependencies blockedStory of
        None \<Rightarrow> False
      | Some deps \<Rightarrow> list_all (\<lambda>depId. list_ex (\<lambda>s. story_id s = depId) done) deps)"

text \<open>
  The \<^verbatim>\<open>for\<close> loop over \<^verbatim>\<open>state.blockedStories\<close>, with the two arrays it pushes to
  as accumulators. An id with no story in the queue takes the \<^verbatim>\<open>continue\<close>.
\<close>

fun unblockLoop ::
  "story list \<Rightarrow> story list \<Rightarrow> string list \<Rightarrow> string list \<times> string list
     \<Rightarrow> string list \<times> string list" where
  "unblockLoop queue done [] acc = acc"
| "unblockLoop queue done (blockedId # ids) (unblocked, stillBlocked) =
     (case find (\<lambda>s. story_id s = blockedId) queue of
        None \<Rightarrow> unblockLoop queue done ids (unblocked, stillBlocked)
      | Some blockedStory \<Rightarrow>
          if allDepsCompleted blockedStory done
          then unblockLoop queue done ids (unblocked @ [blockedId], stillBlocked)
          else unblockLoop queue done ids (unblocked, stillBlocked @ [blockedId]))"

text \<open>The local constants of \<^verbatim>\<open>integrateNode\<close>, each a function of the state.\<close>

definition reviewedChanges :: "swarmState \<Rightarrow> codeChange list" where
  "reviewedChanges state = filter (\<lambda>c. change_status c = Reviewed) (codeChanges state)"

definition completedStoryIds :: "swarmState \<Rightarrow> string list" where
  "completedStoryIds state = map storyId (reviewedChanges state)"

definition newlyCompleted :: "swarmState \<Rightarrow> story list" where
  "newlyCompleted state =
     map (\<lambda>s. s\<lparr> story_status := Completed \<rparr>)
       (filter (\<lambda>s. story_id s \<in> set (completedStoryIds state)) (activeStories state))"

definition remainingActive :: "swarmState \<Rightarrow> story list" where
  "remainingActive state =
     filter (\<lambda>s. story_id s \<notin> set (completedStoryIds state)) (activeStories state)"

definition mergedChanges :: "swarmState \<Rightarrow> codeChange list" where
  "mergedChanges state =
     map (\<lambda>change. if change_status change = Reviewed
                    then change\<lparr> change_status := Merged \<rparr> else change)
         (codeChanges state)"

text \<open>The pair \<^verbatim>\<open>(unblocked, stillBlocked)\<close> after the loop.\<close>

definition unblocking :: "swarmState \<Rightarrow> string list \<times> string list" where
  "unblocking state =
     unblockLoop (storyQueue state) (completedStories state @ newlyCompleted state)
       (blockedStories state) ([], [])"

definition updatedQueue :: "swarmState \<Rightarrow> story list" where
  "updatedQueue state =
     filter (\<lambda>s. story_id s \<notin> set (blockedStories state)) (storyQueue state)
     @ filter (\<lambda>s. story_id s \<in> set (fst (unblocking state))) (storyQueue state)"

definition integrateNode :: "swarmState \<Rightarrow> swarmState" where
  "integrateNode state =
     (if length (reviewedChanges state) = 0 then state\<lparr> phase := PhComplete \<rparr>
      else
        (let hasMore = (length (updatedQueue state) > 0 \<or> length (remainingActive state) > 0)
         in state\<lparr> activeStories := remainingActive state,
                    completedStories := completedStories state @ newlyCompleted state,
                    codeChanges := mergedChanges state,
                    storyQueue := updatedQueue state,
                    blockedStories := snd (unblocking state),
                    phase := (if hasMore then PhAssign else PhComplete) \<rparr>))"

section \<open>The swarm graph (swarm/graph.ts)\<close>

datatype node = SmDraft | Assign | DevSwarm | QaReview | Integrate | END

definition hasMoreWork :: "swarmState \<Rightarrow> node" where
  "hasMoreWork state =
     (if length (storyQueue state) > 0 \<or> length (activeStories state) > 0 then Assign else END)"

definition needsMoreDev :: "swarmState \<Rightarrow> node" where
  "needsMoreDev state = (if list_ex hasFailed (testResults state) then DevSwarm else Integrate)"

text \<open>
  One superstep of the compiled graph of \<^verbatim>\<open>createSwarmGraph\<close>: run the node, merge
  its update, follow the edge (a conditional edge reads the merged state). \<open>None\<close>: the
  graph is at \<^verbatim>\<open>END\<close> and there is nothing to run. \<open>Some (Inl e)\<close>: the node
  rejected and \<^verbatim>\<open>invoke\<close> rejects.
\<close>

definition graphStep ::
  "generator \<Rightarrow> node \<times> swarmState \<Rightarrow> (gen_error + node \<times> swarmState) option" where
  "graphStep g c =
     (case fst c of
        END \<Rightarrow> None
      | SmDraft \<Rightarrow> Some (case smDraftNode g (snd c) of Inl e \<Rightarrow> Inl e | Inr s \<Rightarrow> Inr (Assign, s))
      | Assign \<Rightarrow> Some (Inr (DevSwarm, assignNode (snd c)))
      | DevSwarm \<Rightarrow> Some (case devSwarmNode g (snd c) of Inl e \<Rightarrow> Inl e | Inr s \<Rightarrow> Inr (QaReview, s))
      | QaReview \<Rightarrow> Some (case qaReviewNode g (snd c) of Inl e \<Rightarrow> Inl e | Inr s \<Rightarrow> Inr (needsMoreDev s, s))
      | Integrate \<Rightarrow> Some (let s = integrateNode (snd c) in Inr (hasMoreWork s, s)))"

text \<open>
  \<^verbatim>\<open>graph.invoke\<close> for at most \<open>k\<close> supersteps with one fixed service. The result is
  the configuration reached, or the error of the node that rejected.
\<close>

fun invoke :: "generator \<Rightarrow> nat \<Rightarrow> node \<times> swarmState \<Rightarrow> gen_error + node \<times> swarmState" where
  "invoke g 0 c = Inr c"
| "invoke g (Suc k) c =
     (case graphStep g c of
        None \<Rightarrow> Inr c
      | Some (Inl e) \<Rightarrow> Inl e
      | Some (Inr c') \<Rightarrow> invoke g k c')"

text \<open>
  The transition relation of a run: the service may answer each call differently, so each
  step is taken with some service.
\<close>

definition step :: "node \<times> swarmState \<Rightarrow> node \<times> swarmState \<Rightarrow> bool" where
  "step c c' = (\<exists>g. graphStep g c = Some (Inr c'))"

text \<open>The entry point is \<^verbatim>\<open>sm_draft\<close>: the configurations of a run started on \<open>s0\<close>.\<close>

definition reachableFrom :: "swarmState \<Rightarrow> node \<times> swarmState \<Rightarrow> bool" where
  "reachableFrom s0 c = step\<^sup>*\<^sup>* (SmDraft, s0) c"

section \<open>Starting the swarm (cli: commands/swarm/start.ts)\<close>

text \<open>Decimal digits of a number, for the template \<^verbatim>\<open>`dev-${i + 1}`\<close>.\<close>

function showNat :: "nat \<Rightarrow> string" where
  "showNat n = (if n < 10 then [''0123456789'' ! n]
                else showNat (n div 10) @ [''0123456789'' ! (n mod 10)])"
  by pat_completeness auto
termination
  by (relation "measure (\<lambda>n. n)") auto

declare showNat.simps [simp del]

text \<open>
  \<^verbatim>\<open>runSwarmWorkflow\<close> builds the state it invokes the graph on: \<^verbatim>\<open>maxAgents\<close> idle
  agents (\<^verbatim>\<open>options.maxAgents || 3\<close>: a missing or zero option gives 3) and the loaded
  stories as the queue. The stories are a parameter (the source has a TODO in place of the
  loader).
\<close>

definition initialState :: "nat option \<Rightarrow> story list \<Rightarrow> swarmState" where
  "initialState opt loaded =
     (let m = (case opt of None \<Rightarrow> 3 | Some k \<Rightarrow> if k = 0 then 3 else k) in
      \<lparr> activeStories = [],
        completedStories = [],
        agents = map (\<lambda>i. \<lparr> agent_id = ''dev-'' @ showNat (i + 1),
                             agent_name = ''Dev Agent '' @ showNat (i + 1),
                             assignedStory = None,
                             agent_status = Idle,
                             progress = None \<rparr>) [0..<m],
        maxAgents = m,
        storyQueue = loaded,
        codeChanges = [],
        testResults = [],
        phase = PhAssign,
        blockedStories = [] \<rparr>)"

section \<open>Planning nodes (planning/nodes.ts)\<close>

datatype artifact_type = ProjectBrief | Prd | Architecture | UxSpec | StoryDoc | EpicDoc

record artifact =
  artifact_type :: artifact_type
  artifact_content :: string
  version :: nat
  createdBy :: string
  lastModified :: nat

datatype epic_status = Planned | EpicInProgress | EpicCompleted

text \<open>A story as the sharding prompt asks for it in JSON.\<close>

record rawStory =
  raw_id :: string
  raw_title :: string
  raw_description :: string
  raw_acceptanceCriteria :: "string list"
  raw_dependencies :: "string list option"
  raw_tasks :: "task list"

record rawEpic =
  raw_epic_id :: string
  raw_epic_title :: string
  raw_epic_description :: string
  raw_epic_stories :: "rawStory list"

record epic =
  epic_id :: string
  epic_title :: string
  epic_description :: string
  epic_stories :: "rawStory list"
  epic_status :: epic_status

datatype planning_phase =
  BriefPhase | PrdPhase | UxPhase | ArchitecturePhase | ValidationPhase | ShardingPhase | CompletePhase

datatype project_type = Greenfield | Brownfield

record planningState =
  projectBrief :: "artifact option"
  prd :: "artifact option"
  uxSpec :: "artifact option"
  architecture :: "artifact option"
  epics :: "epic list"
  stories :: "story list"
  currentPhase :: planning_phase
  validationIssues :: "string list"
  needsUserInput :: bool
  userMessage :: "string option"
  projectType :: project_type
  includeUX :: bool

datatype persona = AnalystAgent | PmAgent | ArchitectAgent | PoAgent

text \<open>
  What a planning prompt is built from (the rest of each prompt is fixed text): the brief for
  the PRD, the PRD for the UX spec, the PRD and the optional UX spec for the architecture,
  the PRD and the architecture for sharding.
\<close>

datatype plan_request =
    PrdRequest string
  | UxRequest string
  | ArchitectureRequest string "string option"
  | ShardRequest string string

text \<open>
  The environment of the planning nodes: \<^verbatim>\<open>callAgent\<close> (the service behind a persona;
  \<open>Inl\<close> when it rejects), \<^verbatim>\<open>JSON.parse\<close> followed by the reads of
  \<^verbatim>\<open>parsed.epics\<close> (\<open>Inl\<close> carries the text of the caught error), and
  \<^verbatim>\<open>new Date()\<close>.
\<close>

record planner =
  callAgent :: "persona \<Rightarrow> plan_request \<Rightarrow> gen_error + string"
  parseEpics :: "string \<Rightarrow> string + rawEpic list"
  now :: nat

datatype plan_error = Thrown string | AgentRejected gen_error

definition pmNode :: "planner \<Rightarrow> planningState \<Rightarrow> plan_error + planningState" where
  "pmNode p state =
     (case projectBrief state of
        None \<Rightarrow> Inl (Thrown ''Project brief is required for PRD creation'')
      | Some brief \<Rightarrow>
          (case callAgent p PmAgent (PrdRequest (artifact_content brief)) of
             Inl e \<Rightarrow> Inl (AgentRejected e)
           | Inr prdContent \<Rightarrow>
               Inr (state\<lparr> prd := Some \<lparr> artifact_type = Prd, artifact_content = prdContent,
                                          version = 1, createdBy = ''pm'',
                                          lastModified = now p \<rparr>,
                            currentPhase := (if includeUX state then UxPhase
                                             else ArchitecturePhase) \<rparr>)))"

definition uxNode :: "planner \<Rightarrow> planningState \<Rightarrow> plan_error + planningState" where
  "uxNode p state =
     (case prd state of
        None \<Rightarrow> Inl (Thrown ''PRD is required for UX spec creation'')
      | Some d \<Rightarrow>
          (case callAgent p PmAgent (UxRequest (artifact_content d)) of
             Inl e \<Rightarrow> Inl (AgentRejected e)
           | Inr uxContent \<Rightarrow>
               Inr (state\<lparr> uxSpec := Some \<lparr> artifact_type = UxSpec, artifact_content = uxContent,
                                             version = 1, createdBy = ''ux-expert'',
                                             lastModified = now p \<rparr>,
                            currentPhase := ArchitecturePhase \<rparr>)))"

definition architectNode :: "planner \<Rightarrow> planningState \<Rightarrow> plan_error + planningState" where
  "architectNode p state =
     (case prd state of
        None \<Rightarrow> Inl (Thrown ''PRD is required for architecture creation'')
      | Some d \<Rightarrow>
          (case callAgent p ArchitectAgent
                  (ArchitectureRequest (artifact_content d) (map_option artifact_content (uxSpec state))) of
             Inl e \<Rightarrow> Inl (AgentRejected e)
           | Inr archContent \<Rightarrow>
               Inr (state\<lparr> architecture := Some \<lparr> artifact_type = Architecture,
                                                   artifact_content = archContent,
                                                   version = 1, createdBy = ''architect'',
                                                   lastModified = now p \<rparr>,
                            currentPhase := ValidationPhase \<rparr>)))"

definition shardStory :: "rawEpic \<Rightarrow> rawStory \<Rightarrow> story" where
  "shardStory e r =
     \<lparr> story_id = raw_id r, epicId = raw_epic_id e, title = raw_title r,
       description = raw_description r, acceptanceCriteria = raw_acceptanceCriteria r,
       tasks = raw_tasks r, assignedAgent = None, story_status = Draft,
       dependencies = raw_dependencies r \<rparr>"

definition shardEpic :: "rawEpic \<Rightarrow> epic" where
  "shardEpic e =
     \<lparr> epic_id = raw_epic_id e, epic_title = raw_epic_title e,
       epic_description = raw_epic_description e, epic_stories = raw_epic_stories e,
       epic_status = Planned \<rparr>"

definition poShardNode :: "planner \<Rightarrow> planningState \<Rightarrow> plan_error + planningState" where
  "poShardNode p state =
     (case (prd state, architecture state) of
        (Some d, Some a) \<Rightarrow>
          (case callAgent p PoAgent (ShardRequest (artifact_content d) (artifact_content a)) of
             Inl e \<Rightarrow> Inl (AgentRejected e)
           | Inr shardingResult \<Rightarrow>
               (case parseEpics p shardingResult of
                  Inr parsed \<Rightarrow>
                    Inr (state\<lparr> epics := map shardEpic parsed,
                                 stories := concat (map (\<lambda>e. map (shardStory e) (raw_epic_stories e)) parsed),
                                 currentPhase := CompletePhase \<rparr>)
                | Inl err \<Rightarrow>
                    Inr (state\<lparr> validationIssues := [''Failed to parse epics/stories: '' @ err],
                                 needsUserInput := True \<rparr>)))
      | _ \<Rightarrow> Inl (Thrown ''PRD and Architecture are required for sharding''))"

section \<open>Example data\<close>

definition mkStory :: "string \<Rightarrow> string list \<Rightarrow> story" where
  "mkStory i deps =
     \<lparr> story_id = i, epicId = ''E'', title = i, description = [], acceptanceCriteria = [],
       tasks = [], assignedAgent = None, story_status = Draft, dependencies = Some deps \<rparr>"

definition mkAgent :: "string \<Rightarrow> agentStatus" where
  "mkAgent i = \<lparr> agent_id = i, agent_name = i, assignedStory = None, agent_status = Idle,
                 progress = None \<rparr>"

definition emptyState :: swarmState where
  "emptyState = initialState (Some 1) []"

text \<open>A service whose every answer parses: a draft that keeps the story's own dependencies,
  an implementation, an approving review with no failed test.\<close>

definition alwaysSucceeds :: generator where
  "alwaysSucceeds =
     \<lparr> draftGen = (\<lambda>s ctx. DraftParsed (Some []) None),
       devGen = (\<lambda>i a s. DevParsed [] [] ''feat''),
       qaGen = (\<lambda>i c s. QaParsed \<lparr> rv_storyId = None, rv_passed = Some 1, rv_failed = Some 0,
                                     rv_coverage = None, rv_issues = [], rv_approved = True \<rparr>) \<rparr>"

text \<open>A service whose every answer fails to parse.\<close>

definition neverParses :: generator where
  "neverParses =
     \<lparr> draftGen = (\<lambda>s ctx. DraftUnparseable),
       devGen = (\<lambda>i a s. DevUnparseable),
       qaGen = (\<lambda>i c s. QaUnparseable) \<rparr>"

text \<open>The scenario of two stories, the second depending on the first, and two agents.\<close>

definition scenarioStart :: swarmState where
  "scenarioStart = initialState (Some 2) [mkStory ''A'' [], mkStory ''B'' [''A'']]"

definition emptyPlanning :: planningState where
  "emptyPlanning =
     \<lparr> projectBrief = None, prd = None, uxSpec = None, architecture = None, epics = [],
       stories = [], currentPhase = BriefPhase, validationIssues = [], needsUserInput = False,
       userMessage = None, projectType = Greenfield, includeUX = False \<rparr>"

definition echoPlanner :: planner where
  "echoPlanner = \<lparr> callAgent = (\<lambda>a r. Inr ''text''), parseEpics = (\<lambda>t. Inr []), now = 0 \<rparr>"

text \<open>A service whose every call rejects.\<close>

definition alwaysThrows :: generator where
  "alwaysThrows =
     \<lparr> draftGen = (\<lambda>s ctx. DraftThrows),
       devGen = (\<lambda>i a s. DevThrows),
       qaGen = (\<lambda>i c s. QaThrows) \<rparr>"

section \<open>Properties of swarm states\<close>

definition completedIds :: "swarmState \<Rightarrow> string set" where
  "completedIds s = story_id ` set (completedStories s)"

definition depIds :: "story \<Rightarrow> string set" where
  "depIds st = (case dependencies st of None \<Rightarrow> {} | Some deps \<Rightarrow> set deps)"

text \<open>No premature completion: every dependency of a completed story is completed.\<close>

definition noPrematureCompletion :: "swarmState \<Rightarrow> bool" where
  "noPrematureCompletion s = (\<forall>st \<in> set (completedStories s). depIds st \<subseteq> completedIds s)"

text \<open>The inductive form: the same of every active story as well.\<close>

definition depsSettled :: "swarmState \<Rightarrow> bool" where
  "depsSettled s =
     (\<forall>st \<in> set (activeStories s) \<union> set (completedStories s). depIds st \<subseteq> completedIds s)"

text \<open>The scenario after five supersteps (draft, assign, execute, review, integrate) with
  the service that always succeeds; the graph is back at \<^verbatim>\<open>assign\<close>.\<close>

definition afterCycle1 :: swarmState where
  "afterCycle1 =
     \<lparr> activeStories = [],
       completedStories =
         [(mkStory ''A'' [])\<lparr> assignedAgent := Some ''dev-1'', story_status := Completed \<rparr>],
       agents =
         [\<lparr> agent_id = ''dev-1'', agent_name = ''Dev Agent 1'', assignedStory = Some ''A'',
            agent_status = Idle, progress = Some 100 \<rparr>,
          \<lparr> agent_id = ''dev-2'', agent_name = ''Dev Agent 2'', assignedStory = None,
            agent_status = Idle, progress = None \<rparr>],
       maxAgents = 2,
       storyQueue = [mkStory ''B'' [''A'']],
       codeChanges =
         [\<lparr> storyId = ''A'', agentId = ''dev-1'', files = [], commitMessage = ''feat'',
            change_status = Merged \<rparr>],
       testResults =
         [\<lparr> tr_storyId = ''A'', passed = Some 1, failed = Some 0, coverage = None,
            failures = [], approved = True \<rparr>],
       phase = PhAssign,
       blockedStories = [] \<rparr>"

text \<open>The worker invariant as the data model words it: working iff a story is assigned,
  idle iff none is.\<close>

definition workerInvariant :: "swarmState \<Rightarrow> bool" where
  "workerInvariant s =
     (\<forall>a \<in> set (agents s).
        (agent_status a = Working \<longleftrightarrow> assignedStory a \<noteq> None)
        \<and> (agent_status a = Idle \<longleftrightarrow> assignedStory a = None))"

text \<open>What the nodes maintain of it: a working agent has a story, an agent without one is
  idle.\<close>

definition agentOk :: "agentStatus \<Rightarrow> bool" where
  "agentOk a =
     ((agent_status a = Working \<longrightarrow> assignedStory a \<noteq> None)
      \<and> (assignedStory a = None \<longrightarrow> agent_status a = Idle))"

definition workersOk :: "swarmState \<Rightarrow> bool" where
  "workersOk s = (\<forall>a \<in> set (agents s). agentOk a)"

text \<open>Story \<open>B\<close> of the scenario is still waiting in the queue and is in no other set.\<close>

definition waitingB :: "swarmState \<Rightarrow> bool" where
  "waitingB s =
     (mkStory ''B'' [''A''] \<in> set (storyQueue s)
      \<and> ''B'' \<notin> set (blockedStories s)
      \<and> ''B'' \<notin> story_id ` set (activeStories s)
      \<and> ''B'' \<notin> completedIds s)"

text \<open>What the claims observe of a run: the node and the ids in the queue, the active
  set, the blocked set and the completed set.\<close>

definition summary ::
  "gen_error + node \<times> swarmState
     \<Rightarrow> (node \<times> string list \<times> string list \<times> string list \<times> string list) option" where
  "summary r =
     (case r of
        Inl e \<Rightarrow> None
      | Inr c \<Rightarrow> Some (fst c, map story_id (storyQueue (snd c)),
                        map story_id (activeStories (snd c)), blockedStories (snd c),
                        map story_id (completedStories (snd c))))"

text \<open>A run that starts with story \<open>A\<close> already active and a queued story \<open>B\<close>
  whose dependency \<open>Z\<close> names no story.\<close>

definition inFlightStart :: swarmState where
  "inFlightStart =
     \<lparr> activeStories = [(mkStory ''A'' [])\<lparr> story_status := Ready \<rparr>],
       completedStories = [],
       agents = [mkAgent ''dev-1''],
       maxAgents = 1,
       storyQueue = [mkStory ''B'' [''Z'']],
       codeChanges = [],
       testResults = [],
       phase = PhAssign,
       blockedStories = [] \<rparr>"

text \<open>A state about to integrate the reviewed change of \<open>A\<close>, with blocked ids
  \<open>B\<close> (waiting for \<open>A\<close>) and \<open>D\<close> (waiting for \<open>Z\<close>) whose stories are in the
  queue around an unblocked story \<open>C\<close>.\<close>

definition unblockState :: swarmState where
  "unblockState =
     \<lparr> activeStories =
         [(mkStory ''A'' [])\<lparr> assignedAgent := Some ''dev-1'', story_status := InProgress \<rparr>],
       completedStories = [],
       agents = [(mkAgent ''dev-1'')\<lparr> assignedStory := Some ''A'', progress := Some 100 \<rparr>],
       maxAgents = 1,
       storyQueue = [mkStory ''B'' [''A''], mkStory ''C'' [], mkStory ''D'' [''Z'']],
       codeChanges =
         [\<lparr> storyId = ''A'', agentId = ''dev-1'', files = [], commitMessage = ''feat'',
            change_status = Reviewed \<rparr>],
       testResults = [],
       phase = PhIntegrate,
       blockedStories = [''B'', ''D''] \<rparr>"

text \<open>Two idle agents whose roster order is not the order of their ids, and one story to
  assign.\<close>

definition rosterState :: swarmState where
  "rosterState =
     \<lparr> activeStories = [(mkStory ''A'' [])\<lparr> story_status := Ready \<rparr>],
       completedStories = [],
       agents = [mkAgent ''dev-2'', mkAgent ''dev-1''],
       maxAgents = 2,
       storyQueue = [],
       codeChanges = [],
       testResults = [],
       phase = PhAssign,
       blockedStories = [] \<rparr>"

text \<open>The pairing in the words of the specification: the unassigned active items in their
  order, against the idle workers sorted by id.\<close>

definition specAssignments :: "swarmState \<Rightarrow> (string \<times> string) list" where
  "specAssignments state =
     zip (map story_id (unassignedStories state))
         (map agent_id (sort_key agent_id (idleAgents state)))"

text \<open>Two working agents in the execute phase, and a service whose first answer does not
  parse while the others do.\<close>

definition execState :: swarmState where
  "execState =
     \<lparr> activeStories =
         [(mkStory ''A'' [])\<lparr> assignedAgent := Some ''dev-1'', story_status := InProgress \<rparr>,
          (mkStory ''C'' [])\<lparr> assignedAgent := Some ''dev-2'', story_status := InProgress \<rparr>],
       completedStories = [],
       agents =
         [(mkAgent ''dev-1'')\<lparr> assignedStory := Some ''A'', agent_status := Working,
                                progress := Some 0 \<rparr>,
          (mkAgent ''dev-2'')\<lparr> assignedStory := Some ''C'', agent_status := Working,
                                progress := Some 0 \<rparr>],
       maxAgents = 2,
       storyQueue = [],
       codeChanges = [],
       testResults = [],
       phase = PhExecute,
       blockedStories = [] \<rparr>"

definition firstFails :: generator where
  "firstFails =
     \<lparr> draftGen = (\<lambda>s ctx. DraftParsed (Some []) None),
       devGen = (\<lambda>i a s. if i = 0 then DevUnparseable else DevParsed [] [] ''feat''),
       qaGen = (\<lambda>i c s. QaUnparseable) \<rparr>"

section \<open>Termination condition of the graph\<close>

lemma graphStep_END: "graphStep g (n, s) = Some (Inr (END, s')) \<Longrightarrow>
  n = Integrate \<and> s' = integrateNode s \<and> hasMoreWork s' = END"
  by (cases n) (auto simp: graphStep_def needsMoreDev_def Let_def split: sum.splits if_splits)

lemma graphStep_Integrate: "graphStep g (Integrate, s) = Some (Inr (hasMoreWork (integrateNode s), integrateNode s))"
  by (simp add: graphStep_def Let_def)

lemma hasMoreWork_END: "hasMoreWork s = END \<longleftrightarrow> storyQueue s = [] \<and> activeStories s = []"
  by (simp add: hasMoreWork_def)

text \<open>
  C9. The only edge into \<^verbatim>\<open>END\<close> leaves \<^verbatim>\<open>integrate\<close>, and it is taken exactly when
  the story queue and the active stories of the state that integrate produced are both
  empty; integrate always has a successor, which is \<^verbatim>\<open>assign\<close> when the queue or the
  active set is non-empty and \<^verbatim>\<open>END\<close> otherwise.
\<close>

theorem termination_condition:
  "(step (n, s) (END, s') \<longrightarrow> n = Integrate \<and> storyQueue s' = [] \<and> activeStories s' = [])
   \<and> step (Integrate, s) (hasMoreWork (integrateNode s), integrateNode s)
   \<and> (step (Integrate, s) (n', s') \<longrightarrow>
        s' = integrateNode s
        \<and> n' = (if storyQueue s' \<noteq> [] \<or> activeStories s' \<noteq> [] then Assign else END))"
proof (intro conjI impI)
  assume "step (n, s) (END, s')"
  then obtain g where "graphStep g (n, s) = Some (Inr (END, s'))"
    by (auto simp: step_def)
  from graphStep_END [OF this] have "n = Integrate" and "hasMoreWork s' = END"
    by blast+
  then show "n = Integrate" "storyQueue s' = []" "activeStories s' = []"
    by (simp_all add: hasMoreWork_END)
next
  show "step (Integrate, s) (hasMoreWork (integrateNode s), integrateNode s)"
    unfolding step_def using graphStep_Integrate by blast
next
  assume "step (Integrate, s) (n', s')"
  then have *: "s' = integrateNode s" "n' = hasMoreWork s'"
    by (auto simp: step_def graphStep_Integrate)
  show "s' = integrateNode s" by (rule *)
  show "n' = (if storyQueue s' \<noteq> [] \<or> activeStories s' \<noteq> [] then Assign else END)"
    using * by (simp add: hasMoreWork_def)
qed

theorem termination_condition_witness:
  "step (Integrate, emptyState) (END, integrateNode emptyState)
   \<and> storyQueue (integrateNode emptyState) = []
   \<and> activeStories (integrateNode emptyState) = []"
  using termination_condition [of Integrate emptyState "integrateNode emptyState" END]
  by (simp add: emptyState_def initialState_def integrateNode_def reviewedChanges_def
      hasMoreWork_def)

section \<open>Planning: missing predecessor artifacts\<close>

text \<open>
  C10. A planning node whose required upstream artifact is absent rejects with an error
  that names it, whatever the service would have answered (the check precedes the call),
  and returns no state: PRD creation without a project brief, architecture without a PRD,
  sharding without a PRD or without an architecture.
\<close>

theorem missing_predecessor_fatal:
  "(projectBrief s = None \<longrightarrow>
      pmNode p s = Inl (Thrown ''Project brief is required for PRD creation''))
   \<and> (prd s = None \<longrightarrow>
      architectNode p s = Inl (Thrown ''PRD is required for architecture creation''))
   \<and> (prd s = None \<or> architecture s = None \<longrightarrow>
      poShardNode p s = Inl (Thrown ''PRD and Architecture are required for sharding''))"
  by (auto simp: pmNode_def architectNode_def poShardNode_def split: option.splits)

theorem missing_predecessor_fatal_witness:
  "projectBrief emptyPlanning = None \<and> prd emptyPlanning = None
   \<and> pmNode echoPlanner emptyPlanning
       = Inl (Thrown ''Project brief is required for PRD creation'')
   \<and> architectNode echoPlanner emptyPlanning
       = Inl (Thrown ''PRD is required for architecture creation'')
   \<and> poShardNode echoPlanner emptyPlanning
       = Inl (Thrown ''PRD and Architecture are required for sharding'')"
  using missing_predecessor_fatal [of emptyPlanning echoPlanner]
  by (simp add: emptyPlanning_def)

section \<open>Draft failures\<close>

text \<open>
  The claim C8 as stated fails: when the draft of the head story does not parse, the node
  returns only the phase tag, so the state is the old one with phase \<^verbatim>\<open>assign\<close>;
  no field records an issue and the queue keeps its length.
\<close>

theorem draft_failure_counterexample:
  "smDraftNode neverParses scenarioStart = Inr (scenarioStart\<lparr> phase := PhAssign \<rparr>)
   \<and> length (storyQueue (scenarioStart\<lparr> phase := PhAssign \<rparr>)) = 2
   \<and> length (storyQueue scenarioStart) - 1 = 1"
  by (simp add: smDraftNode_def neverParses_def scenarioStart_def initialState_def)

text \<open>
  C8, amended. With a story at the head of the queue: if its draft does not parse, the node
  succeeds with the active, blocked and completed sets unchanged (the story enters none of
  them), as are the agents, the code changes and the test results (nothing is recorded in
  the state), and the phase tag is \<^verbatim>\<open>assign\<close>; if the service rejects, the node
  rejects and there is no state update.
\<close>

theorem draft_failure_handling:
  assumes "storyQueue s = nextStory # rest"
  shows "(draftGen g nextStory (take 5 rest) = DraftUnparseable \<longrightarrow>
            (\<exists>s'. smDraftNode g s = Inr s'
               \<and> activeStories s' = activeStories s
               \<and> blockedStories s' = blockedStories s
               \<and> completedStories s' = completedStories s
               \<and> agents s' = agents s
               \<and> codeChanges s' = codeChanges s
               \<and> testResults s' = testResults s
               \<and> phase s' = PhAssign))
         \<and> (draftGen g nextStory (take 5 rest) = DraftThrows \<longrightarrow>
              smDraftNode g s = Inl GenerationFailed)"
  using assms by (simp add: smDraftNode_def)

theorem draft_failure_handling_witness:
  "storyQueue scenarioStart = [mkStory ''A'' [], mkStory ''B'' [''A'']]
   \<and> (\<exists>s'. smDraftNode neverParses scenarioStart = Inr s'
         \<and> activeStories s' = [] \<and> blockedStories s' = [] \<and> completedStories s' = []
         \<and> phase s' = PhAssign)
   \<and> smDraftNode alwaysThrows scenarioStart = Inl GenerationFailed"
proof -
  have q: "storyQueue scenarioStart = mkStory ''A'' [] # [mkStory ''B'' [''A'']]"
    by (simp add: scenarioStart_def initialState_def)
  have e: "activeStories scenarioStart = []" "blockedStories scenarioStart = []"
    "completedStories scenarioStart = []"
    by (simp_all add: scenarioStart_def initialState_def)
  show ?thesis
    using q e draft_failure_handling [OF q, of neverParses]
      draft_failure_handling [OF q, of alwaysThrows]
    by (auto simp add: neverParses_def alwaysThrows_def)
qed

section \<open>No premature completion\<close>

lemma not_isBlocked: "\<not> isBlocked d done \<Longrightarrow> depIds d \<subseteq> story_id ` set done"
  by (auto simp: isBlocked_def depIds_def list_ex_iff list_all_iff split: option.splits)

lemma depsSettled_cong:
  "activeStories s' = activeStories s \<Longrightarrow> completedStories s' = completedStories s \<Longrightarrow>
   depsSettled s' = depsSettled s"
  by (simp add: depsSettled_def completedIds_def)

lemma smDraftNode_stories:
  "smDraftNode g s = Inr s' \<Longrightarrow>
     completedStories s' = completedStories s \<and>
     (activeStories s' = activeStories s \<or>
      (\<exists>d. activeStories s' = activeStories s @ [d] \<and> \<not> isBlocked d (completedStories s)))"
  by (auto simp: smDraftNode_def Let_def split: list.splits draft_outcome.splits if_splits)

lemma smDraftNode_depsSettled:
  assumes "smDraftNode g s = Inr s'" and "depsSettled s"
  shows "depsSettled s'"
proof -
  from smDraftNode_stories [OF assms(1)]
  have c: "completedStories s' = completedStories s"
    and a: "activeStories s' = activeStories s \<or>
      (\<exists>d. activeStories s' = activeStories s @ [d] \<and> \<not> isBlocked d (completedStories s))"
    by blast+
  from a show ?thesis
  proof
    assume "activeStories s' = activeStories s"
    with c assms(2) show ?thesis using depsSettled_cong [of s' s] by blast
  next
    assume "\<exists>d. activeStories s' = activeStories s @ [d] \<and> \<not> isBlocked d (completedStories s)"
    then obtain d where d: "activeStories s' = activeStories s @ [d]"
      and nb: "\<not> isBlocked d (completedStories s)" by blast
    from not_isBlocked [OF nb] have "depIds d \<subseteq> completedIds s"
      by (simp add: completedIds_def)
    with assms(2) show ?thesis
      unfolding depsSettled_def completedIds_def c d by auto
  qed
qed

lemma assignNode_completed: "completedStories (assignNode s) = completedStories s"
  by (simp add: assignNode_def Let_def)

lemma assignNode_active:
  assumes "st' \<in> set (activeStories (assignNode s))"
  shows "\<exists>st \<in> set (activeStories s). depIds st' = depIds st \<and> story_id st' = story_id st"
proof (cases "length (idleAgents s) = 0 \<or> length (unassignedStories s) = 0")
  case True
  with assms show ?thesis by (auto simp: assignNode_def)
next
  case False
  with assms obtain st where st: "st \<in> set (activeStories s)"
    and eq: "st' = (case find (\<lambda>a. fst a = story_id st) (assignments s) of
                     Some a \<Rightarrow> st\<lparr> assignedAgent := Some (snd a), story_status := InProgress \<rparr>
                   | None \<Rightarrow> st)"
    by (auto simp: assignNode_def Let_def)
  from eq have "depIds st' = depIds st \<and> story_id st' = story_id st"
    by (simp add: depIds_def split: option.splits)
  with st show ?thesis by blast
qed

lemma assignNode_depsSettled:
  assumes "depsSettled s"
  shows "depsSettled (assignNode s)"
  unfolding depsSettled_def
proof
  fix st'
  assume "st' \<in> set (activeStories (assignNode s)) \<union> set (completedStories (assignNode s))"
  then have "st' \<in> set (activeStories (assignNode s)) \<or> st' \<in> set (completedStories s)"
    by (simp add: assignNode_completed)
  then obtain st where "st \<in> set (activeStories s) \<union> set (completedStories s)"
    and "depIds st' = depIds st"
    using assignNode_active [of st' s] by blast
  with assms show "depIds st' \<subseteq> completedIds (assignNode s)"
    by (simp add: depsSettled_def completedIds_def assignNode_completed)
qed

lemma devSwarmNode_stories:
  "devSwarmNode g s = Inr s' \<Longrightarrow>
     activeStories s' = activeStories s \<and> completedStories s' = completedStories s
     \<and> storyQueue s' = storyQueue s \<and> blockedStories s' = blockedStories s"
  by (auto simp: devSwarmNode_def Let_def split: if_splits sum.splits)

lemma qaReviewNode_stories:
  "qaReviewNode g s = Inr s' \<Longrightarrow>
     activeStories s' = activeStories s \<and> completedStories s' = completedStories s
     \<and> storyQueue s' = storyQueue s \<and> blockedStories s' = blockedStories s
     \<and> agents s' = agents s"
  by (auto simp: qaReviewNode_def Let_def split: if_splits sum.splits)

lemma integrateNode_stories:
  "set (activeStories (integrateNode s)) \<subseteq> set (activeStories s)"
  "st' \<in> set (completedStories (integrateNode s)) \<Longrightarrow>
     st' \<in> set (completedStories s) \<or>
     (\<exists>st \<in> set (activeStories s). st' = st\<lparr> story_status := Completed \<rparr>)"
  "completedIds s \<subseteq> completedIds (integrateNode s)"
  by (auto simp: integrateNode_def Let_def completedIds_def remainingActive_def
      newlyCompleted_def split: if_splits)

lemma integrateNode_depsSettled:
  assumes "depsSettled s"
  shows "depsSettled (integrateNode s)"
  unfolding depsSettled_def
proof
  fix st' assume "st' \<in> set (activeStories (integrateNode s)) \<union> set (completedStories (integrateNode s))"
  then obtain st where "st \<in> set (activeStories s) \<union> set (completedStories s)"
    and "depIds st' = depIds st"
    using integrateNode_stories(1,2) [where s=s] by (fastforce simp: depIds_def)
  with assms have "depIds st' \<subseteq> completedIds s"
    by (simp add: depsSettled_def)
  then show "depIds st' \<subseteq> completedIds (integrateNode s)"
    using integrateNode_stories(3) [where s=s] by blast
qed

lemma step_depsSettled:
  assumes "step (n, s) (n', s')" and "depsSettled s"
  shows "depsSettled s'"
proof -
  from assms(1) obtain g where g: "graphStep g (n, s) = Some (Inr (n', s'))"
    by (auto simp: step_def)
  show ?thesis
  proof (cases n)
    case SmDraft
    with g have "smDraftNode g s = Inr s'"
      by (auto simp: graphStep_def split: sum.splits)
    then show ?thesis using assms(2) by (rule smDraftNode_depsSettled)
  next
    case Assign
    with g have "s' = assignNode s"
      by (simp add: graphStep_def)
    then show ?thesis using assms(2) by (simp add: assignNode_depsSettled)
  next
    case DevSwarm
    with g have "devSwarmNode g s = Inr s'"
      by (auto simp: graphStep_def split: sum.splits)
    from devSwarmNode_stories [OF this] assms(2) show ?thesis
      using depsSettled_cong [of s' s] by blast
  next
    case QaReview
    with g have "qaReviewNode g s = Inr s'"
      by (auto simp: graphStep_def split: sum.splits)
    from qaReviewNode_stories [OF this] assms(2) show ?thesis
      using depsSettled_cong [of s' s] by blast
  next
    case Integrate
    with g have "s' = integrateNode s"
      by (simp add: graphStep_def Let_def)
    then show ?thesis using assms(2) by (simp add: integrateNode_depsSettled)
  next
    case END
    with g show ?thesis by (simp add: graphStep_def)
  qed
qed

lemma reachableFrom_depsSettled:
  assumes "reachableFrom s0 c" and "depsSettled s0"
  shows "depsSettled (snd c)"
  using assms unfolding reachableFrom_def
proof (induction rule: rtranclp_induct)
  case base
  then show ?case by simp
next
  case (step y z)
  then show ?case
    using step_depsSettled [of "fst y" "snd y" "fst z" "snd z"] by simp
qed

lemma initialState_depsSettled: "depsSettled (initialState m loaded)"
  by (simp add: depsSettled_def initialState_def Let_def)

lemma invoke_reachable:
  "invoke g k c = Inr c' \<Longrightarrow> step\<^sup>*\<^sup>* c c'"
proof (induction k arbitrary: c)
  case 0
  then show ?case by simp
next
  case (Suc k)
  show ?case
  proof (cases "graphStep g c")
    case None
    with Suc.prems show ?thesis by simp
  next
    case (Some r)
    show ?thesis
    proof (cases r)
      case (Inl e)
      with Some Suc.prems show ?thesis by simp
    next
      case (Inr c1)
      with Some have "step c c1" by (auto simp: step_def)
      moreover from Inr Some Suc.prems have "invoke g k c1 = Inr c'" by simp
      ultimately show ?thesis using Suc.IH by (meson converse_rtranclp_into_rtranclp)
    qed
  qed
qed

text \<open>
  C2. In every configuration that a run of the graph reaches from the state that
  \<^verbatim>\<open>runSwarmWorkflow\<close> starts it on, whatever the service answers, every dependency
  id of every completed story is the id of a completed story.
\<close>

theorem no_premature_completion:
  "reachableFrom (initialState m loaded) (n, s) \<Longrightarrow> noPrematureCompletion s"
  using reachableFrom_depsSettled [OF _ initialState_depsSettled, of m loaded "(n, s)"]
  by (simp add: depsSettled_def noPrematureCompletion_def)

lemma scenarioStart_eq:
  "scenarioStart =
     \<lparr> activeStories = [],
       completedStories = [],
       agents =
         [\<lparr> agent_id = ''dev-1'', agent_name = ''Dev Agent 1'', assignedStory = None,
            agent_status = Idle, progress = None \<rparr>,
          \<lparr> agent_id = ''dev-2'', agent_name = ''Dev Agent 2'', assignedStory = None,
            agent_status = Idle, progress = None \<rparr>],
       maxAgents = 2,
       storyQueue = [mkStory ''A'' [], mkStory ''B'' [''A'']],
       codeChanges = [],
       testResults = [],
       phase = PhAssign,
       blockedStories = [] \<rparr>"
  by (simp add: scenarioStart_def initialState_def upt_rec showNat.simps)

lemmas node_defs =
  graphStep_def smDraftNode_def assignNode_def devSwarmNode_def qaReviewNode_def
  integrateNode_def draftStory_def isBlocked_def idleAgents_def unassignedStories_def
  unassigned_def assignments_def workingAgents_def devPromise_def nonNull_def enumerate_eq_zip
  reviewPromise_def reviewResult_def hasFailed_def needsMoreDev_def hasMoreWork_def
  reviewedChanges_def completedStoryIds_def newlyCompleted_def remainingActive_def
  mergedChanges_def unblocking_def updatedQueue_def allDepsCompleted_def Let_def upt_rec

lemma scenario_cycle1:
  "invoke alwaysSucceeds 5 (SmDraft, scenarioStart) = Inr (Assign, afterCycle1)"
  by (simp add: eval_nat_numeral scenarioStart_eq afterCycle1_def alwaysSucceeds_def
      mkStory_def node_defs)

lemma scenario_reachable: "reachableFrom scenarioStart (Assign, afterCycle1)"
  using invoke_reachable [OF scenario_cycle1] by (simp add: reachableFrom_def)

theorem no_premature_completion_witness:
  "reachableFrom (initialState (Some 2) [mkStory ''A'' [], mkStory ''B'' [''A'']])
     (Assign, afterCycle1)
   \<and> noPrematureCompletion afterCycle1"
proof -
  have r: "reachableFrom (initialState (Some 2) [mkStory ''A'' [], mkStory ''B'' [''A'']])
     (Assign, afterCycle1)"
    using scenario_reachable by (simp add: scenarioStart_def)
  from no_premature_completion [OF r] r show ?thesis by simp
qed

section \<open>Worker status\<close>

lemma assignNode_agents:
  assumes "a' \<in> set (agents (assignNode s))"
  shows "a' \<in> set (agents s) \<or>
         (\<exists>a \<in> set (agents s). \<exists>i.
            a' = a\<lparr> agent_status := Working, assignedStory := Some i, progress := Some 0 \<rparr>)"
proof (cases "length (idleAgents s) = 0 \<or> length (unassignedStories s) = 0")
  case True
  with assms show ?thesis by (auto simp: assignNode_def)
next
  case False
  with assms obtain a where a: "a \<in> set (agents s)"
    and eq: "a' = (case find (\<lambda>x. snd x = agent_id a) (assignments s) of
                     Some x \<Rightarrow> a\<lparr> agent_status := Working, assignedStory := Some (fst x),
                                    progress := Some 0 \<rparr>
                   | None \<Rightarrow> a)"
    by (auto simp: assignNode_def Let_def)
  show ?thesis
  proof (cases "find (\<lambda>x. snd x = agent_id a) (assignments s)")
    case None
    with eq a show ?thesis by simp
  next
    case (Some x)
    with eq a show ?thesis by auto
  qed
qed

lemma assignNode_workersOk:
  assumes "workersOk s"
  shows "workersOk (assignNode s)"
  unfolding workersOk_def
proof
  fix a' assume "a' \<in> set (agents (assignNode s))"
  from assignNode_agents [OF this] assms show "agentOk a'"
    by (auto simp: workersOk_def agentOk_def)
qed

lemma devSwarmNode_idle:
  "workingAgents s = [] \<Longrightarrow> devSwarmNode g s = Inr (s\<lparr> phase := PhReview \<rparr>)"
  by (simp add: devSwarmNode_def)

lemma devSwarmNode_Inr:
  assumes "devSwarmNode g s = Inr s'" and "workingAgents s \<noteq> []"
  shows "\<exists>rs. promiseAll (map (devPromise g s) (enumerate 0 (workingAgents s))) = Inr rs
           \<and> s' = s\<lparr> codeChanges := codeChanges s @ nonNull rs,
                       agents := map (\<lambda>agent. if list_ex (\<lambda>c. agentId c = agent_id agent) (nonNull rs)
                                  then agent\<lparr> agent_status := Idle, progress := Some 100 \<rparr>
                                  else agent) (agents s),
                       phase := PhReview \<rparr>"
  using assms by (simp add: devSwarmNode_def Let_def split: sum.splits)

lemma devSwarmNode_agents:
  assumes "devSwarmNode g s = Inr s'" and "a' \<in> set (agents s')"
  shows "a' \<in> set (agents s) \<or>
         (\<exists>a \<in> set (agents s). a' = a\<lparr> agent_status := Idle, progress := Some 100 \<rparr>)"
proof (cases "workingAgents s = []")
  case True
  with assms show ?thesis by (auto simp: devSwarmNode_idle)
next
  case False
  from devSwarmNode_Inr [OF assms(1) False] obtain rs where
    "s' = s\<lparr> codeChanges := codeChanges s @ nonNull rs,
                       agents := map (\<lambda>agent. if list_ex (\<lambda>c. agentId c = agent_id agent) (nonNull rs)
                                  then agent\<lparr> agent_status := Idle, progress := Some 100 \<rparr>
                                  else agent) (agents s),
                       phase := PhReview \<rparr>"
    by blast
  then have "agents s' = map (\<lambda>agent. if list_ex (\<lambda>c. agentId c = agent_id agent) (nonNull rs)
                                  then agent\<lparr> agent_status := Idle, progress := Some 100 \<rparr>
                                  else agent) (agents s)"
    by simp
  with assms(2) show ?thesis by auto
qed

lemma devSwarmNode_workersOk:
  assumes "devSwarmNode g s = Inr s'" and "workersOk s"
  shows "workersOk s'"
  unfolding workersOk_def
proof
  fix a' assume "a' \<in> set (agents s')"
  from devSwarmNode_agents [OF assms(1) this] assms(2) show "agentOk a'"
    by (auto simp: workersOk_def agentOk_def)
qed

lemma smDraftNode_agents: "smDraftNode g s = Inr s' \<Longrightarrow> agents s' = agents s"
  by (auto simp: smDraftNode_def Let_def split: list.splits draft_outcome.splits if_splits)

lemma integrateNode_agents: "agents (integrateNode s) = agents s"
  by (simp add: integrateNode_def Let_def)

lemma step_workersOk:
  assumes "step (n, s) (n', s')" and "workersOk s"
  shows "workersOk s'"
proof -
  from assms(1) obtain g where g: "graphStep g (n, s) = Some (Inr (n', s'))"
    by (auto simp: step_def)
  show ?thesis
  proof (cases n)
    case SmDraft
    with g have "smDraftNode g s = Inr s'"
      by (auto simp: graphStep_def split: sum.splits)
    from smDraftNode_agents [OF this] assms(2) show ?thesis by (simp add: workersOk_def)
  next
    case Assign
    with g have "s' = assignNode s"
      by (simp add: graphStep_def)
    then show ?thesis using assms(2) by (simp add: assignNode_workersOk)
  next
    case DevSwarm
    with g have "devSwarmNode g s = Inr s'"
      by (auto simp: graphStep_def split: sum.splits)
    then show ?thesis using assms(2) by (rule devSwarmNode_workersOk)
  next
    case QaReview
    with g have "qaReviewNode g s = Inr s'"
      by (auto simp: graphStep_def split: sum.splits)
    from qaReviewNode_stories [OF this] assms(2) show ?thesis by (simp add: workersOk_def)
  next
    case Integrate
    with g have "s' = integrateNode s"
      by (simp add: graphStep_def Let_def)
    then show ?thesis using assms(2) by (simp add: workersOk_def integrateNode_agents)
  next
    case END
    with g show ?thesis by (simp add: graphStep_def)
  qed
qed

lemma reachableFrom_workersOk:
  assumes "reachableFrom s0 c" and "workersOk s0"
  shows "workersOk (snd c)"
  using assms unfolding reachableFrom_def
proof (induction rule: rtranclp_induct)
  case base
  then show ?case by simp
next
  case (step y z)
  then show ?case
    using step_workersOk [of "fst y" "snd y" "fst z" "snd z"] by simp
qed

lemma initialState_workersOk: "workersOk (initialState m loaded)"
  by (auto simp: workersOk_def agentOk_def initialState_def Let_def)

text \<open>
  The claim C6 as stated fails: after the first cycle of the scenario, agent
  \<^verbatim>\<open>dev-1\<close> is idle and still carries the id of the story it finished
  (\<^verbatim>\<open>devSwarmNode\<close> sets status and progress and leaves \<^verbatim>\<open>assignedStory\<close>).
\<close>

theorem worker_status_counterexample:
  "reachableFrom scenarioStart (Assign, afterCycle1) \<and> \<not> workerInvariant afterCycle1"
  using scenario_reachable by (simp add: workerInvariant_def afterCycle1_def)

text \<open>
  C6, amended. In every configuration that a run reaches from the state
  \<^verbatim>\<open>runSwarmWorkflow\<close> starts it on, a working agent has an assigned story, and an
  agent with no assigned story is idle.
\<close>

theorem worker_status:
  assumes "reachableFrom (initialState m loaded) (n, s)" and "a \<in> set (agents s)"
  shows "(agent_status a = Working \<longrightarrow> assignedStory a \<noteq> None)
         \<and> (assignedStory a = None \<longrightarrow> agent_status a = Idle)"
  using reachableFrom_workersOk [OF assms(1) initialState_workersOk] assms(2)
  by (simp add: workersOk_def agentOk_def)

theorem worker_status_witness:
  "reachableFrom (initialState (Some 2) [mkStory ''A'' [], mkStory ''B'' [''A'']])
     (Assign, afterCycle1)
   \<and> mkAgent ''dev-2'' \<lparr> agent_name := ''Dev Agent 2'' \<rparr> \<in> set (agents afterCycle1)
   \<and> assignedStory (mkAgent ''dev-2'' \<lparr> agent_name := ''Dev Agent 2'' \<rparr>) = None
   \<and> agent_status (mkAgent ''dev-2'' \<lparr> agent_name := ''Dev Agent 2'' \<rparr>) = Idle"
proof -
  have r: "reachableFrom (initialState (Some 2) [mkStory ''A'' [], mkStory ''B'' [''A'']])
     (Assign, afterCycle1)"
    using scenario_reachable by (simp add: scenarioStart_def)
  have m: "mkAgent ''dev-2'' \<lparr> agent_name := ''Dev Agent 2'' \<rparr> \<in> set (agents afterCycle1)"
    by (simp add: afterCycle1_def mkAgent_def)
  from worker_status [OF r m] r m show ?thesis
    by (simp add: mkAgent_def)
qed

section \<open>The unblocking loop\<close>

lemma unblockLoop_eq:
  "unblockLoop q d ids (u, sb) =
     (u @ filter (\<lambda>b. case find (\<lambda>s. story_id s = b) q of
                         None \<Rightarrow> False | Some st \<Rightarrow> allDepsCompleted st d) ids,
      sb @ filter (\<lambda>b. case find (\<lambda>s. story_id s = b) q of
                         None \<Rightarrow> False | Some st \<Rightarrow> \<not> allDepsCompleted st d) ids)"
  by (induction ids arbitrary: u sb) (auto split: option.splits)

lemma unblocking_eq:
  "unblocking s =
     (filter (\<lambda>b. case find (\<lambda>st. story_id st = b) (storyQueue s) of
                     None \<Rightarrow> False
                   | Some st \<Rightarrow> allDepsCompleted st (completedStories s @ newlyCompleted s))
        (blockedStories s),
      filter (\<lambda>b. case find (\<lambda>st. story_id st = b) (storyQueue s) of
                     None \<Rightarrow> False
                   | Some st \<Rightarrow> \<not> allDepsCompleted st (completedStories s @ newlyCompleted s))
        (blockedStories s))"
  by (simp add: unblocking_def unblockLoop_eq)

lemma integrateNode_nothing:
  "reviewedChanges s = [] \<Longrightarrow> integrateNode s = s\<lparr> phase := PhComplete \<rparr>"
  by (simp add: integrateNode_def)

lemma integrateNode_fields:
  assumes "reviewedChanges s \<noteq> []"
  shows "activeStories (integrateNode s) = remainingActive s"
    and "completedStories (integrateNode s) = completedStories s @ newlyCompleted s"
    and "storyQueue (integrateNode s) = updatedQueue s"
    and "blockedStories (integrateNode s) = snd (unblocking s)"
    and "codeChanges (integrateNode s) = mergedChanges s"
  using assms by (simp_all add: integrateNode_def Let_def)

section \<open>The dependency scenario\<close>

lemma integrateNode_blocked_subset:
  "set (blockedStories (integrateNode s)) \<subseteq> set (blockedStories s)"
proof (cases "reviewedChanges s = []")
  case True
  then show ?thesis by (simp add: integrateNode_nothing)
next
  case False
  then show ?thesis by (auto simp: integrateNode_fields unblocking_eq)
qed

lemma integrateNode_queue_keeps:
  assumes "st \<in> set (storyQueue s)" and "story_id st \<notin> set (blockedStories s)"
  shows "st \<in> set (storyQueue (integrateNode s))"
proof (cases "reviewedChanges s = []")
  case True
  with assms show ?thesis by (simp add: integrateNode_nothing)
next
  case False
  with assms show ?thesis by (simp add: integrateNode_fields updatedQueue_def)
qed

lemma integrateNode_waitingB:
  assumes "waitingB s"
  shows "waitingB (integrateNode s)"
proof -
  from assms have q: "mkStory ''B'' [''A''] \<in> set (storyQueue s)"
    and b: "''B'' \<notin> set (blockedStories s)"
    and a: "''B'' \<notin> story_id ` set (activeStories s)"
    and c: "''B'' \<notin> completedIds s"
    by (simp_all add: waitingB_def)
  have "story_id (mkStory ''B'' [''A'']) = ''B''" by (simp add: mkStory_def)
  with q b have 1: "mkStory ''B'' [''A''] \<in> set (storyQueue (integrateNode s))"
    by (simp add: integrateNode_queue_keeps)
  from b integrateNode_blocked_subset [of s]
  have 2: "''B'' \<notin> set (blockedStories (integrateNode s))" by blast
  from a integrateNode_stories(1) [where s=s]
  have 3: "''B'' \<notin> story_id ` set (activeStories (integrateNode s))" by blast
  have 4: "''B'' \<notin> completedIds (integrateNode s)"
  proof
    assume "''B'' \<in> completedIds (integrateNode s)"
    then obtain st' where st': "st' \<in> set (completedStories (integrateNode s))"
      and i: "story_id st' = ''B''"
      by (auto simp: completedIds_def)
    from integrateNode_stories(2) [OF st'] show False
    proof
      assume "st' \<in> set (completedStories s)"
      with i have "''B'' \<in> completedIds s" by (force simp: completedIds_def)
      with c show False by simp
    next
      assume "\<exists>st \<in> set (activeStories s). st' = st\<lparr> story_status := Completed \<rparr>"
      then obtain st where "st \<in> set (activeStories s)" "story_id st = story_id st'"
        by auto
      with i have "''B'' \<in> story_id ` set (activeStories s)" by force
      with a show False by simp
    qed
  qed
  from 1 2 3 4 show ?thesis by (simp add: waitingB_def)
qed

lemma assignNode_queue:
  "storyQueue (assignNode s) = storyQueue s" "blockedStories (assignNode s) = blockedStories s"
  by (simp_all add: assignNode_def Let_def)

lemma assignNode_waitingB:
  assumes "waitingB s"
  shows "waitingB (assignNode s)"
proof -
  have "''B'' \<notin> story_id ` set (activeStories (assignNode s))"
  proof
    assume "''B'' \<in> story_id ` set (activeStories (assignNode s))"
    then obtain st' where "st' \<in> set (activeStories (assignNode s))" "story_id st' = ''B''"
      by auto
    with assignNode_active [of st' s] obtain st where
      "st \<in> set (activeStories s)" "story_id st = ''B''" by auto
    then have "''B'' \<in> story_id ` set (activeStories s)" by force
    with assms show False by (simp add: waitingB_def)
  qed
  with assms show ?thesis
    by (simp add: waitingB_def assignNode_queue assignNode_completed completedIds_def)
qed

lemma smDraftNode_scenario:
  assumes "smDraftNode g scenarioStart = Inr s'"
  shows "waitingB s'"
proof (cases "draftGen g (mkStory ''A'' []) [mkStory ''B'' [''A'']]")
  case DraftThrows
  with assms show ?thesis by (simp add: smDraftNode_def scenarioStart_eq)
next
  case DraftUnparseable
  with assms show ?thesis
    by (auto simp: smDraftNode_def scenarioStart_eq waitingB_def completedIds_def)
next
  case (DraftParsed pt hd)
  with assms show ?thesis
    by (auto simp: smDraftNode_def scenarioStart_eq waitingB_def completedIds_def Let_def
        draftStory_def mkStory_def split: if_splits)
qed

lemma waitingB_cong:
  assumes "activeStories s' = activeStories s" "completedStories s' = completedStories s"
    "storyQueue s' = storyQueue s" "blockedStories s' = blockedStories s"
  shows "waitingB s' = waitingB s"
  using assms by (simp add: waitingB_def completedIds_def)

lemma step_waitingB:
  assumes "step (n, s) (n', s')" and "n \<noteq> SmDraft" and "waitingB s"
  shows "n' \<noteq> SmDraft \<and> n' \<noteq> END \<and> waitingB s'"
proof -
  from assms(1) obtain g where g: "graphStep g (n, s) = Some (Inr (n', s'))"
    by (auto simp: step_def)
  show ?thesis
  proof (cases n)
    case SmDraft
    with assms(2) show ?thesis by simp
  next
    case Assign
    with g have "s' = assignNode s" "n' = DevSwarm"
      by (simp_all add: graphStep_def)
    then show ?thesis using assms(3) by (simp add: assignNode_waitingB)
  next
    case DevSwarm
    with g have d: "devSwarmNode g s = Inr s'" and n': "n' = QaReview"
      by (auto simp: graphStep_def split: sum.splits)
    from devSwarmNode_stories [OF d] assms(3) have "waitingB s'"
      using waitingB_cong [of s' s] by blast
    with n' show ?thesis by simp
  next
    case QaReview
    with g have d: "qaReviewNode g s = Inr s'" and n': "n' = needsMoreDev s'"
      by (auto simp: graphStep_def split: sum.splits)
    from qaReviewNode_stories [OF d] assms(3) have "waitingB s'"
      using waitingB_cong [of s' s] by blast
    with n' show ?thesis by (simp add: needsMoreDev_def)
  next
    case Integrate
    with g have s': "s' = integrateNode s" and n': "n' = hasMoreWork s'"
      by (auto simp: graphStep_def Let_def)
    from s' assms(3) have w: "waitingB s'" by (simp add: integrateNode_waitingB)
    then have "storyQueue s' \<noteq> []" by (auto simp: waitingB_def)
    with n' w show ?thesis by (simp add: hasMoreWork_def)
  next
    case END
    with g show ?thesis by (simp add: graphStep_def)
  qed
qed

lemma scenario_reachable_cases:
  assumes "reachableFrom scenarioStart c"
  shows "c = (SmDraft, scenarioStart) \<or> (fst c \<noteq> SmDraft \<and> fst c \<noteq> END \<and> waitingB (snd c))"
  using assms unfolding reachableFrom_def
proof (induction rule: rtranclp_induct)
  case base
  then show ?case by simp
next
  case (step y z)
  from step.IH show ?case
  proof
    assume y: "y = (SmDraft, scenarioStart)"
    with step.hyps(2) obtain g where "graphStep g (SmDraft, scenarioStart) = Some (Inr z)"
      by (auto simp: step_def)
    then have "fst z = Assign" and "smDraftNode g scenarioStart = Inr (snd z)"
      by (auto simp: graphStep_def split: sum.splits)
    then show ?thesis by (simp add: smDraftNode_scenario)
  next
    assume "fst y \<noteq> SmDraft \<and> fst y \<noteq> END \<and> waitingB (snd y)"
    with step.hyps(2) step_waitingB [of "fst y" "snd y" "fst z" "snd z"]
    show ?thesis by simp
  qed
qed

lemma promiseAll_Inl: "promiseAll ps = Inl e \<Longrightarrow> Rejected \<in> set ps"
  by (induction ps rule: promiseAll.induct) (auto split: sum.splits)

lemma alwaysSucceeds_step: "graphStep alwaysSucceeds c \<noteq> Some (Inl e)"
proof
  assume a: "graphStep alwaysSucceeds c = Some (Inl e)"
  show False
  proof (cases "fst c")
    case SmDraft
    with a show ?thesis
      by (auto simp: graphStep_def smDraftNode_def alwaysSucceeds_def Let_def
          split: sum.splits list.splits if_splits)
  next
    case Assign
    with a show ?thesis by (simp add: graphStep_def)
  next
    case DevSwarm
    with a have "devSwarmNode alwaysSucceeds (snd c) = Inl e"
      by (auto simp: graphStep_def split: sum.splits)
    then have "promiseAll (map (devPromise alwaysSucceeds (snd c))
                 (enumerate 0 (workingAgents (snd c)))) = Inl e"
      by (auto simp: devSwarmNode_def Let_def split: if_splits sum.splits)
    from promiseAll_Inl [OF this] show ?thesis
      by (auto simp: devPromise_def alwaysSucceeds_def split: option.splits)
  next
    case QaReview
    with a have "qaReviewNode alwaysSucceeds (snd c) = Inl e"
      by (auto simp: graphStep_def split: sum.splits)
    then have "promiseAll (map (reviewPromise alwaysSucceeds (snd c))
                 (enumerate 0 (filter (\<lambda>c. change_status c = Pending) (codeChanges (snd c))))) = Inl e"
      by (auto simp: qaReviewNode_def Let_def split: if_splits sum.splits)
    from promiseAll_Inl [OF this] show ?thesis
      by (auto simp: reviewPromise_def alwaysSucceeds_def split: option.splits)
  next
    case Integrate
    with a show ?thesis by (simp add: graphStep_def Let_def)
  next
    case END
    with a show ?thesis by (simp add: graphStep_def)
  qed
qed

lemma alwaysSucceeds_invoke: "\<exists>c'. invoke alwaysSucceeds k c = Inr c'"
proof (induction k arbitrary: c)
  case 0
  then show ?case by simp
next
  case (Suc k)
  show ?case
  proof (cases "graphStep alwaysSucceeds c")
    case None
    then show ?thesis by simp
  next
    case (Some r)
    with alwaysSucceeds_step [of c] obtain c1 where "r = Inr c1"
      by (cases r) auto
    with Some Suc.IH [of c1] show ?thesis by simp
  qed
qed

text \<open>
  C1 fails on the code. In the scenario (queue \<open>[A, B]\<close>, \<open>B\<close> depending on
  \<open>A\<close>, two idle agents) with the service that always succeeds, after any number
  \<open>k\<close> of supersteps the graph has not reached \<^verbatim>\<open>END\<close>, and story \<open>B\<close> is
  still in the queue and in neither the blocked nor the completed set:
  \<^verbatim>\<open>sm_draft\<close> is the entry point only and no edge returns to it, so only the head
  of the queue is ever drafted, and \<^verbatim>\<open>hasMoreWork\<close> sends the run back to
  \<^verbatim>\<open>assign\<close> for as long as the queue is non-empty.
\<close>

theorem scenario_never_completes:
  "\<exists>n s. invoke alwaysSucceeds k (SmDraft, scenarioStart) = Inr (n, s)
         \<and> n \<noteq> END
         \<and> ''B'' \<notin> set (blockedStories s)
         \<and> ''B'' \<notin> completedIds s
         \<and> mkStory ''B'' [''A''] \<in> set (storyQueue s)"
proof -
  from alwaysSucceeds_invoke obtain c where
    c: "invoke alwaysSucceeds k (SmDraft, scenarioStart) = Inr c" by blast
  from invoke_reachable [OF c] have "reachableFrom scenarioStart c"
    by (simp add: reachableFrom_def)
  from scenario_reachable_cases [OF this]
  have "fst c \<noteq> END \<and> ''B'' \<notin> set (blockedStories (snd c)) \<and> ''B'' \<notin> completedIds (snd c)
        \<and> mkStory ''B'' [''A''] \<in> set (storyQueue (snd c))"
    by (auto simp: waitingB_def scenarioStart_eq completedIds_def)
  with c show ?thesis by (cases c) auto
qed

section \<open>Blocked ids\<close>

text \<open>
  C4 fails on the code. \<^verbatim>\<open>smDraftNode\<close> takes a blocked story out of the queue and
  keeps only its id; \<^verbatim>\<open>integrateNode\<close> looks each blocked id up in the queue and
  skips (\<^verbatim>\<open>continue\<close>) the ids it does not find, so they are in neither
  \<^verbatim>\<open>unblocked\<close> nor \<^verbatim>\<open>stillBlocked\<close>. In a run that starts with story
  \<open>A\<close> active and \<open>B\<close> queued, \<open>B\<close> depending on an id that names no story:
  before integrate, \<open>B\<close> is blocked; after it, the run is at \<^verbatim>\<open>END\<close> with
  \<open>A\<close> completed and \<open>B\<close> in no set at all.
\<close>

theorem blocked_id_dropped:
  "summary (invoke alwaysSucceeds 4 (SmDraft, inFlightStart))
     = Some (Integrate, [], [''A''], [''B''], [])
   \<and> summary (invoke alwaysSucceeds 5 (SmDraft, inFlightStart))
     = Some (END, [], [], [], [''A''])"
  by (simp add: eval_nat_numeral summary_def inFlightStart_def alwaysSucceeds_def
      mkStory_def mkAgent_def node_defs)

section \<open>Unblocking\<close>

text \<open>
  The claim C3 as stated fails: integrating the reviewed change of \<open>A\<close> unblocks
  \<open>B\<close>, and \<open>B\<close> goes behind the untouched story \<open>C\<close>, not to the front
  of the queue.
\<close>

theorem unblocking_counterexample:
  "blockedStories unblockState = [''B'', ''D'']
   \<and> map story_id (storyQueue unblockState) = [''B'', ''C'', ''D'']
   \<and> map story_id (completedStories (integrateNode unblockState)) = [''A'']
   \<and> blockedStories (integrateNode unblockState) = [''D'']
   \<and> map story_id (storyQueue (integrateNode unblockState)) = [''C'', ''B'']"
  by (simp add: unblockState_def mkStory_def mkAgent_def node_defs)

lemma allDepsCompleted_iff:
  "dependencies st = Some deps \<Longrightarrow>
     allDepsCompleted st done \<longleftrightarrow> set deps \<subseteq> story_id ` set done"
  by (auto simp: allDepsCompleted_def list_all_iff list_ex_iff)

text \<open>
  C3, amended. When integrate has a reviewed change to merge, for a blocked id whose story is
  found in the queue with a dependency list: if all its dependencies are in the updated
  completed set, the id leaves the blocked set and the story stands in the new queue behind
  all the stories that were not blocked (the new queue is those, in order, followed by
  stories that were blocked); if a dependency is missing, the id stays in the blocked set.
\<close>

theorem unblocking_on_integrate:
  assumes "reviewedChanges s \<noteq> []"
    and "b \<in> set (blockedStories s)"
    and "find (\<lambda>st. story_id st = b) (storyQueue s) = Some bs"
    and "dependencies bs = Some deps"
  shows "(set deps \<subseteq> completedIds (integrateNode s) \<longrightarrow>
            b \<notin> set (blockedStories (integrateNode s))
            \<and> (\<exists>moved. storyQueue (integrateNode s) =
                   filter (\<lambda>st. story_id st \<notin> set (blockedStories s)) (storyQueue s) @ moved
                 \<and> bs \<in> set moved
                 \<and> (\<forall>st \<in> set moved. story_id st \<in> set (blockedStories s))))
         \<and> (\<not> set deps \<subseteq> completedIds (integrateNode s) \<longrightarrow>
              b \<in> set (blockedStories (integrateNode s)))"
proof -
  let ?done = "completedStories s @ newlyCompleted s"
  from assms(1) have c: "completedIds (integrateNode s) = story_id ` set ?done"
    by (simp add: completedIds_def integrateNode_fields)
  from assms(4) have d: "allDepsCompleted bs ?done \<longleftrightarrow> set deps \<subseteq> completedIds (integrateNode s)"
    by (simp add: allDepsCompleted_iff c)
  from assms(3) have bs: "bs \<in> set (storyQueue s)" "story_id bs = b"
    by (auto simp: find_Some_iff)
  have bl: "blockedStories (integrateNode s) = snd (unblocking s)"
    and q: "storyQueue (integrateNode s) = updatedQueue s"
    using assms(1) by (simp_all add: integrateNode_fields)
  show ?thesis
  proof (intro conjI impI)
    assume "set deps \<subseteq> completedIds (integrateNode s)"
    with d have a: "allDepsCompleted bs ?done" by simp
    with assms(3) show "b \<notin> set (blockedStories (integrateNode s))"
      by (simp add: bl unblocking_eq)
    from a assms(2,3) have u: "b \<in> set (fst (unblocking s))"
      by (simp add: unblocking_eq)
    let ?moved = "filter (\<lambda>st. story_id st \<in> set (fst (unblocking s))) (storyQueue s)"
    have "storyQueue (integrateNode s) =
            filter (\<lambda>st. story_id st \<notin> set (blockedStories s)) (storyQueue s) @ ?moved"
      by (simp add: q updatedQueue_def)
    moreover from u bs have "bs \<in> set ?moved" by simp
    moreover have "\<forall>st \<in> set ?moved. story_id st \<in> set (blockedStories s)"
      by (auto simp: unblocking_eq)
    ultimately show "\<exists>moved. storyQueue (integrateNode s) =
                   filter (\<lambda>st. story_id st \<notin> set (blockedStories s)) (storyQueue s) @ moved
                 \<and> bs \<in> set moved
                 \<and> (\<forall>st \<in> set moved. story_id st \<in> set (blockedStories s))"
      by blast
  next
    assume "\<not> set deps \<subseteq> completedIds (integrateNode s)"
    with d have "\<not> allDepsCompleted bs ?done" by simp
    with assms(2,3) show "b \<in> set (blockedStories (integrateNode s))"
      by (simp add: bl unblocking_eq)
  qed
qed

theorem unblocking_on_integrate_witness:
  "reviewedChanges unblockState \<noteq> []
   \<and> ''B'' \<in> set (blockedStories unblockState) \<and> ''D'' \<in> set (blockedStories unblockState)
   \<and> set [''A''] \<subseteq> completedIds (integrateNode unblockState)
   \<and> \<not> set [''Z''] \<subseteq> completedIds (integrateNode unblockState)
   \<and> ''B'' \<notin> set (blockedStories (integrateNode unblockState))
   \<and> mkStory ''B'' [''A''] \<in> set (storyQueue (integrateNode unblockState))
   \<and> ''D'' \<in> set (blockedStories (integrateNode unblockState))"
proof -
  have r: "reviewedChanges unblockState \<noteq> []"
    by (simp add: unblockState_def reviewedChanges_def)
  have mB: "''B'' \<in> set (blockedStories unblockState)"
    and mD: "''D'' \<in> set (blockedStories unblockState)"
    by (simp_all add: unblockState_def)
  have fB: "find (\<lambda>st. story_id st = ''B'') (storyQueue unblockState) = Some (mkStory ''B'' [''A''])"
    and fD: "find (\<lambda>st. story_id st = ''D'') (storyQueue unblockState) = Some (mkStory ''D'' [''Z''])"
    by (simp_all add: unblockState_def mkStory_def)
  have dB: "dependencies (mkStory ''B'' [''A'']) = Some [''A'']"
    and dD: "dependencies (mkStory ''D'' [''Z'']) = Some [''Z'']"
    by (simp_all add: mkStory_def)
  have c: "completedIds (integrateNode unblockState) = {''A''}"
    by (simp add: completedIds_def unblockState_def mkStory_def mkAgent_def node_defs)
  have sA: "set [''A''] \<subseteq> completedIds (integrateNode unblockState)"
    and sZ: "\<not> set [''Z''] \<subseteq> completedIds (integrateNode unblockState)"
    by (simp_all add: c)
  from unblocking_on_integrate [OF r mB fB dB] sA
  have b1: "''B'' \<notin> set (blockedStories (integrateNode unblockState))"
    and "\<exists>moved. storyQueue (integrateNode unblockState) =
            filter (\<lambda>st. story_id st \<notin> set (blockedStories unblockState))
              (storyQueue unblockState) @ moved
          \<and> mkStory ''B'' [''A''] \<in> set moved
          \<and> (\<forall>st \<in> set moved. story_id st \<in> set (blockedStories unblockState))"
    by blast+
  then obtain moved where
    "storyQueue (integrateNode unblockState) =
       filter (\<lambda>st. story_id st \<notin> set (blockedStories unblockState))
         (storyQueue unblockState) @ moved"
    and "mkStory ''B'' [''A''] \<in> set moved"
    by blast
  then have b2: "mkStory ''B'' [''A''] \<in> set (storyQueue (integrateNode unblockState))"
    by simp
  from unblocking_on_integrate [OF r mD fD dD] sZ
  have b3: "''D'' \<in> set (blockedStories (integrateNode unblockState))"
    by blast
  from r mB mD sA sZ b1 b2 b3 show ?thesis by blast
qed

section \<open>Assignment\<close>

text \<open>
  The claim C5 as stated fails: \<^verbatim>\<open>assignNode\<close> takes the idle agents in roster
  order (a filter of \<^verbatim>\<open>state.agents\<close>), not sorted by id. With the roster
  \<open>[dev-2, dev-1]\<close> story \<open>A\<close> goes to \<open>dev-2\<close>, where the pairing against
  the agents sorted by id gives it to \<open>dev-1\<close>.
\<close>

theorem assignment_pairing_counterexample:
  "assignments rosterState = [(''A'', ''dev-2'')]
   \<and> specAssignments rosterState = [(''A'', ''dev-1'')]"
  by (simp add: rosterState_def specAssignments_def mkStory_def mkAgent_def node_defs)

lemma find_distinct_nth:
  "distinct (map f ps) \<Longrightarrow> i < length ps \<Longrightarrow> find (\<lambda>a. f a = f (ps ! i)) ps = Some (ps ! i)"
proof (induction ps arbitrary: i)
  case Nil
  then show ?case by simp
next
  case (Cons p ps)
  show ?case
  proof (cases i)
    case 0
    then show ?thesis by simp
  next
    case (Suc j)
    with Cons.prems have j: "j < length ps" and d: "distinct (map f ps)"
      and n: "f p \<notin> f ` set ps" by auto
    from j n have "f p \<noteq> f (ps ! j)" by (metis imageI nth_mem)
    with Suc Cons.IH [OF d j] show ?thesis by simp
  qed
qed

lemma assignments_length:
  "length (assignments s) = min (length (unassignedStories s)) (length (idleAgents s))"
  by (simp add: assignments_def)

lemma assignments_nth:
  "i < length (assignments s) \<Longrightarrow>
     assignments s ! i = (story_id (unassignedStories s ! i), agent_id (idleAgents s ! i))"
  by (simp add: assignments_def)

lemma assignments_fst:
  "map fst (assignments s) = map story_id (take (length (assignments s)) (unassignedStories s))"
  by (rule nth_equalityI) (simp_all add: assignments_length assignments_nth)

lemma assignments_snd:
  "map snd (assignments s) = map agent_id (take (length (assignments s)) (idleAgents s))"
  by (rule nth_equalityI) (simp_all add: assignments_length assignments_nth)

lemma distinct_idle:
  "distinct (map agent_id (agents s)) \<Longrightarrow> distinct (map agent_id (idleAgents s))"
  by (simp add: idleAgents_def distinct_map_filter)

lemma distinct_unassigned:
  "distinct (map story_id (activeStories s)) \<Longrightarrow> distinct (map story_id (unassignedStories s))"
  by (simp add: unassignedStories_def distinct_map_filter)

lemma distinct_assignments_snd:
  assumes "distinct (map agent_id (agents s))"
  shows "distinct (map snd (assignments s))"
  unfolding assignments_snd take_map [symmetric]
  using distinct_idle [OF assms] by (rule distinct_take)

lemma distinct_assignments_fst:
  assumes "distinct (map story_id (activeStories s))"
  shows "distinct (map fst (assignments s))"
  unfolding assignments_fst take_map [symmetric]
  using distinct_unassigned [OF assms] by (rule distinct_take)

lemma find_assignment_agent:
  assumes "distinct (map agent_id (agents s))" and "i < length (assignments s)"
  shows "find (\<lambda>a. snd a = agent_id (idleAgents s ! i)) (assignments s)
           = Some (story_id (unassignedStories s ! i), agent_id (idleAgents s ! i))"
  using find_distinct_nth [OF distinct_assignments_snd [OF assms(1)] assms(2)]
  by (simp add: assignments_nth [OF assms(2)])

lemma find_assignment_story:
  assumes "distinct (map story_id (activeStories s))" and "i < length (assignments s)"
  shows "find (\<lambda>a. fst a = story_id (unassignedStories s ! i)) (assignments s)
           = Some (story_id (unassignedStories s ! i), agent_id (idleAgents s ! i))"
  using find_distinct_nth [OF distinct_assignments_fst [OF assms(1)] assms(2)]
  by (simp add: assignments_nth [OF assms(2)])

lemma distinct_map_eq:
  "distinct (map f xs) \<Longrightarrow> x \<in> set xs \<Longrightarrow> y \<in> set xs \<Longrightarrow> f x = f y \<Longrightarrow> x = y"
  by (meson distinct_map inj_onD)

lemma find_no_assignment_agent:
  assumes "distinct (map agent_id (agents s))" and "a \<in> set (agents s)"
    and "\<forall>i < length (assignments s). a \<noteq> idleAgents s ! i"
  shows "find (\<lambda>x. snd x = agent_id a) (assignments s) = None"
proof -
  have "snd x \<noteq> agent_id a" if "x \<in> set (assignments s)" for x
  proof
    assume e: "snd x = agent_id a"
    from that obtain i where i: "i < length (assignments s)" and x: "x = assignments s ! i"
      by (auto simp: in_set_conv_nth)
    from i have il: "i < length (idleAgents s)" by (simp add: assignments_length)
    then have m: "idleAgents s ! i \<in> set (agents s)"
      using nth_mem [OF il] by (simp add: idleAgents_def)
    from e x i have e2: "agent_id (idleAgents s ! i) = agent_id a"
      by (simp add: assignments_nth)
    have "idleAgents s ! i = a"
      by (rule distinct_map_eq [OF assms(1) m assms(2) e2])
    with assms(3) i show False by blast
  qed
  then show ?thesis unfolding find_None_iff by blast
qed

lemma find_no_assignment_story:
  assumes "distinct (map story_id (activeStories s))" and "st \<in> set (activeStories s)"
    and "\<forall>i < length (assignments s). st \<noteq> unassignedStories s ! i"
  shows "find (\<lambda>x. fst x = story_id st) (assignments s) = None"
proof -
  have "fst x \<noteq> story_id st" if "x \<in> set (assignments s)" for x
  proof
    assume e: "fst x = story_id st"
    from that obtain i where i: "i < length (assignments s)" and x: "x = assignments s ! i"
      by (auto simp: in_set_conv_nth)
    from i have il: "i < length (unassignedStories s)" by (simp add: assignments_length)
    then have m: "unassignedStories s ! i \<in> set (activeStories s)"
      using nth_mem [OF il] by (simp add: unassignedStories_def)
    from e x i have e2: "story_id (unassignedStories s ! i) = story_id st"
      by (simp add: assignments_nth)
    have "unassignedStories s ! i = st"
      by (rule distinct_map_eq [OF assms(1) m assms(2) e2])
    with assms(3) i show False by blast
  qed
  then show ?thesis unfolding find_None_iff by blast
qed

lemma assignments_empty:
  "length (assignments s) = 0 \<longleftrightarrow>
     length (idleAgents s) = 0 \<or> length (unassignedStories s) = 0"
  unfolding assignments_length min_def by auto

lemma assignNode_skip:
  "length (assignments s) = 0 \<Longrightarrow> assignNode s = s\<lparr> phase := PhExecute \<rparr>"
  unfolding assignments_empty by (simp add: assignNode_def)

lemma assignNode_run:
  assumes "length (assignments s) \<noteq> 0"
  shows "agents (assignNode s) =
           map (\<lambda>agent. case find (\<lambda>a. snd a = agent_id agent) (assignments s) of
                          Some a \<Rightarrow> agent\<lparr> agent_status := Working,
                                           assignedStory := Some (fst a),
                                           progress := Some 0 \<rparr>
                        | None \<Rightarrow> agent) (agents s)"
    and "activeStories (assignNode s) =
           map (\<lambda>st. case find (\<lambda>a. fst a = story_id st) (assignments s) of
                          Some a \<Rightarrow> st\<lparr> assignedAgent := Some (snd a), story_status := InProgress \<rparr>
                        | None \<Rightarrow> st) (activeStories s)"
  using assms unfolding assignments_empty by (simp_all add: assignNode_def Let_def)

lemma assignNode_lengths:
  "length (agents (assignNode s)) = length (agents s)"
  "length (activeStories (assignNode s)) = length (activeStories s)"
  by (simp_all add: assignNode_def Let_def)

text \<open>
  C5, amended. For any state whose agent ids are pairwise distinct and whose active story
  ids are pairwise distinct, \<^verbatim>\<open>assignNode\<close> pairs the unassigned active stories, in
  their order, positionally with the idle agents in roster order: there are exactly
  \<open>min\<close> of the two counts assignments, the \<open>i\<close>-th pairing the \<open>i\<close>-th
  unassigned story with the \<open>i\<close>-th idle agent; each paired agent becomes working with
  progress 0 and the story's id, each paired story becomes in-progress with the agent's id,
  and every other agent and story is unchanged, all at their positions.
\<close>

theorem assignment_pairing:
  assumes "distinct (map agent_id (agents s))" and "distinct (map story_id (activeStories s))"
  shows "length (assignments s) = min (length (unassignedStories s)) (length (idleAgents s))
    \<and> (\<forall>i < length (assignments s).
          assignments s ! i = (story_id (unassignedStories s ! i), agent_id (idleAgents s ! i)))
    \<and> length (agents (assignNode s)) = length (agents s)
    \<and> length (activeStories (assignNode s)) = length (activeStories s)
    \<and> (\<forall>j < length (agents s). \<forall>i < length (assignments s).
          agents s ! j = idleAgents s ! i \<longrightarrow>
          agents (assignNode s) ! j =
            (agents s ! j)\<lparr> agent_status := Working,
                              assignedStory := Some (story_id (unassignedStories s ! i)),
                              progress := Some 0 \<rparr>)
    \<and> (\<forall>j < length (agents s).
          (\<forall>i < length (assignments s). agents s ! j \<noteq> idleAgents s ! i) \<longrightarrow>
          agents (assignNode s) ! j = agents s ! j)
    \<and> (\<forall>j < length (activeStories s). \<forall>i < length (assignments s).
          activeStories s ! j = unassignedStories s ! i \<longrightarrow>
          activeStories (assignNode s) ! j =
            (activeStories s ! j)\<lparr> assignedAgent := Some (agent_id (idleAgents s ! i)),
                                     story_status := InProgress \<rparr>)
    \<and> (\<forall>j < length (activeStories s).
          (\<forall>i < length (assignments s). activeStories s ! j \<noteq> unassignedStories s ! i) \<longrightarrow>
          activeStories (assignNode s) ! j = activeStories s ! j)"
proof (intro conjI allI impI)
  show "length (assignments s) = min (length (unassignedStories s)) (length (idleAgents s))"
    by (rule assignments_length)
next
  fix i assume "i < length (assignments s)"
  then show "assignments s ! i = (story_id (unassignedStories s ! i), agent_id (idleAgents s ! i))"
    by (rule assignments_nth)
next
  show "length (agents (assignNode s)) = length (agents s)"
    by (rule assignNode_lengths)
next
  show "length (activeStories (assignNode s)) = length (activeStories s)"
    by (rule assignNode_lengths)
next
  fix j i
  assume j: "j < length (agents s)" and i: "i < length (assignments s)"
    and e: "agents s ! j = idleAgents s ! i"
  from i have "length (assignments s) \<noteq> 0" by auto
  from assignNode_run(1) [OF this] j
  have "agents (assignNode s) ! j =
          (case find (\<lambda>a. snd a = agent_id (agents s ! j)) (assignments s) of
             Some a \<Rightarrow> (agents s ! j)\<lparr> agent_status := Working,
                                        assignedStory := Some (fst a),
                                        progress := Some 0 \<rparr>
           | None \<Rightarrow> agents s ! j)"
    by simp
  also have "find (\<lambda>a. snd a = agent_id (agents s ! j)) (assignments s)
               = Some (story_id (unassignedStories s ! i), agent_id (idleAgents s ! i))"
    unfolding e by (rule find_assignment_agent [OF assms(1) i])
  finally show "agents (assignNode s) ! j =
            (agents s ! j)\<lparr> agent_status := Working,
                              assignedStory := Some (story_id (unassignedStories s ! i)),
                              progress := Some 0 \<rparr>"
    by simp
next
  fix j
  assume j: "j < length (agents s)"
    and n: "\<forall>i < length (assignments s). agents s ! j \<noteq> idleAgents s ! i"
  show "agents (assignNode s) ! j = agents s ! j"
  proof (cases "length (assignments s) = 0")
    case True
    then show ?thesis by (simp add: assignNode_skip)
  next
    case False
    from j have "agents s ! j \<in> set (agents s)" by simp
    from find_no_assignment_agent [OF assms(1) this n] assignNode_run(1) [OF False] j
    show ?thesis by simp
  qed
next
  fix j i
  assume j: "j < length (activeStories s)" and i: "i < length (assignments s)"
    and e: "activeStories s ! j = unassignedStories s ! i"
  from i have "length (assignments s) \<noteq> 0" by auto
  from assignNode_run(2) [OF this] j
  have "activeStories (assignNode s) ! j =
          (case find (\<lambda>a. fst a = story_id (activeStories s ! j)) (assignments s) of
             Some a \<Rightarrow> (activeStories s ! j)\<lparr> assignedAgent := Some (snd a),
                                               story_status := InProgress \<rparr>
           | None \<Rightarrow> activeStories s ! j)"
    by simp
  also have "find (\<lambda>a. fst a = story_id (activeStories s ! j)) (assignments s)
               = Some (story_id (unassignedStories s ! i), agent_id (idleAgents s ! i))"
    unfolding e by (rule find_assignment_story [OF assms(2) i])
  finally show "activeStories (assignNode s) ! j =
            (activeStories s ! j)\<lparr> assignedAgent := Some (agent_id (idleAgents s ! i)),
                                     story_status := InProgress \<rparr>"
    by simp
next
  fix j
  assume j: "j < length (activeStories s)"
    and n: "\<forall>i < length (assignments s). activeStories s ! j \<noteq> unassignedStories s ! i"
  show "activeStories (assignNode s) ! j = activeStories s ! j"
  proof (cases "length (assignments s) = 0")
    case True
    then show ?thesis by (simp add: assignNode_skip)
  next
    case False
    from j have "activeStories s ! j \<in> set (activeStories s)" by simp
    from find_no_assignment_story [OF assms(2) this n] assignNode_run(2) [OF False] j
    show ?thesis by simp
  qed
qed

theorem assignment_pairing_witness:
  "distinct (map agent_id (agents rosterState))
   \<and> distinct (map story_id (activeStories rosterState))
   \<and> length (assignments rosterState) = 1
   \<and> agents (assignNode rosterState) ! 0 =
        (mkAgent ''dev-2'')\<lparr> agent_status := Working, assignedStory := Some ''A'',
                             progress := Some 0 \<rparr>
   \<and> agents (assignNode rosterState) ! 1 = mkAgent ''dev-1''
   \<and> activeStories (assignNode rosterState) ! 0 =
        (mkStory ''A'' [])\<lparr> assignedAgent := Some ''dev-2'', story_status := InProgress \<rparr>"
proof -
  let ?A = "(mkStory ''A'' [])\<lparr> story_status := Ready \<rparr>"
  have ag: "agents rosterState = [mkAgent ''dev-2'', mkAgent ''dev-1'']"
    and act: "activeStories rosterState = [?A]"
    by (simp_all add: rosterState_def)
  have idle: "idleAgents rosterState = [mkAgent ''dev-2'', mkAgent ''dev-1'']"
    and un: "unassignedStories rosterState = [?A]"
    by (simp_all add: idleAgents_def unassignedStories_def unassigned_def ag act mkAgent_def
        mkStory_def)
  have d1: "distinct (map agent_id (agents rosterState))"
    and d2: "distinct (map story_id (activeStories rosterState))"
    by (simp_all add: ag act mkAgent_def)
  note T = assignment_pairing [OF d1 d2]
  from T have len: "length (assignments rosterState) = 1"
    by (simp add: idle un)
  from T have
    "\<forall>j < length (agents rosterState). \<forall>i < length (assignments rosterState).
          agents rosterState ! j = idleAgents rosterState ! i \<longrightarrow>
          agents (assignNode rosterState) ! j =
            (agents rosterState ! j)\<lparr> agent_status := Working,
                assignedStory := Some (story_id (unassignedStories rosterState ! i)),
                progress := Some 0 \<rparr>"
    by (elim conjE)
  from this [rule_format, of 0 0] have a0: "agents (assignNode rosterState) ! 0 =
        (mkAgent ''dev-2'')\<lparr> agent_status := Working, assignedStory := Some ''A'',
                             progress := Some 0 \<rparr>"
    by (simp add: len ag idle un mkStory_def)
  from T have
    "\<forall>j < length (agents rosterState).
          (\<forall>i < length (assignments rosterState).
              agents rosterState ! j \<noteq> idleAgents rosterState ! i) \<longrightarrow>
          agents (assignNode rosterState) ! j = agents rosterState ! j"
    by (elim conjE)
  from this [rule_format, of 1] have a1: "agents (assignNode rosterState) ! 1 = mkAgent ''dev-1''"
    by (simp add: len ag idle mkAgent_def)
  from T have
    "\<forall>j < length (activeStories rosterState). \<forall>i < length (assignments rosterState).
          activeStories rosterState ! j = unassignedStories rosterState ! i \<longrightarrow>
          activeStories (assignNode rosterState) ! j =
            (activeStories rosterState ! j)\<lparr>
                assignedAgent := Some (agent_id (idleAgents rosterState ! i)),
                story_status := InProgress \<rparr>"
    by (elim conjE)
  from this [rule_format, of 0 0] have s0: "activeStories (assignNode rosterState) ! 0 =
        (mkStory ''A'' [])\<lparr> assignedAgent := Some ''dev-2'', story_status := InProgress \<rparr>"
    by (simp add: len act idle un mkAgent_def)
  from d1 d2 len a0 a1 s0 show ?thesis by blast
qed

section \<open>Failed execution\<close>

text \<open>
  The claim C7 as stated fails: the agent whose output did not parse is not released. It
  ends the phase as it began, working and holding its story, and the story stays assigned
  to it; only the agents that produced a change become idle. When the service rejects a
  call, the whole node rejects.
\<close>

theorem failed_execution_counterexample:
  "devSwarmNode firstFails execState =
     Inr (execState\<lparr>
       codeChanges := [\<lparr> storyId = ''C'', agentId = ''dev-2'', files = [],
                          commitMessage = ''feat'', change_status = Pending \<rparr>],
       agents :=
         [(mkAgent ''dev-1'')\<lparr> assignedStory := Some ''A'', agent_status := Working,
                                progress := Some 0 \<rparr>,
          (mkAgent ''dev-2'')\<lparr> assignedStory := Some ''C'', agent_status := Idle,
                                progress := Some 100 \<rparr>],
       phase := PhReview \<rparr>)
   \<and> devSwarmNode alwaysThrows execState = Inl GenerationFailed"
  by (simp add: execState_def firstFails_def alwaysThrows_def mkStory_def mkAgent_def node_defs)

lemma promiseAll_Rejected: "Rejected \<in> set ps \<Longrightarrow> promiseAll ps = Inl GenerationFailed"
  by (induction ps rule: promiseAll.induct) (auto split: sum.splits)

lemma promiseAll_total: "Rejected \<notin> set ps \<Longrightarrow> \<exists>rs. promiseAll ps = Inr rs"
  by (induction ps rule: promiseAll.induct) (auto split: sum.splits)

lemma promiseAll_Inr: "promiseAll ps = Inr rs \<Longrightarrow> ps = map Fulfilled rs"
  by (induction ps arbitrary: rs rule: promiseAll.induct) (auto split: sum.splits)

lemma set_nonNull: "c \<in> set (nonNull rs) \<longleftrightarrow> Some c \<in> set rs"
  by (induction rs) (auto simp: nonNull_def split: option.splits)

lemma devPromises_nth:
  "j < length (workingAgents s) \<Longrightarrow>
     map (devPromise g s) (enumerate 0 (workingAgents s)) ! j
       = devPromise g s (j, workingAgents s ! j)"
  by (simp add: nth_enumerate_eq)

lemma devPromise_agentId:
  "devPromise g s (j, a) = Fulfilled (Some c) \<Longrightarrow> agentId c = agent_id a"
  by (auto simp: devPromise_def split: option.splits dev_outcome.splits)

lemma distinct_working:
  "distinct (map agent_id (agents s)) \<Longrightarrow> distinct (map agent_id (workingAgents s))"
  by (simp add: workingAgents_def distinct_map_filter)

lemma devSwarmNode_rejects:
  assumes "j < length (workingAgents s)"
    and "devPromise g s (j, workingAgents s ! j) = Rejected"
  shows "devSwarmNode g s = Inl GenerationFailed"
proof -
  let ?ps = "map (devPromise g s) (enumerate 0 (workingAgents s))"
  from assms(1) have "?ps ! j \<in> set ?ps" by (intro nth_mem) simp
  then have "Rejected \<in> set ?ps"
    unfolding devPromises_nth [OF assms(1)] assms(2) .
  from promiseAll_Rejected [OF this] assms(1) show ?thesis
    by (auto simp: devSwarmNode_def)
qed

lemma devSwarmNode_total:
  assumes "\<forall>j < length (workingAgents s). devPromise g s (j, workingAgents s ! j) \<noteq> Rejected"
  shows "\<exists>s'. devSwarmNode g s = Inr s'"
proof (cases "workingAgents s = []")
  case True
  then show ?thesis by (simp add: devSwarmNode_idle)
next
  case False
  let ?ps = "map (devPromise g s) (enumerate 0 (workingAgents s))"
  have "Rejected \<notin> set ?ps"
  proof
    assume "Rejected \<in> set ?ps"
    then obtain j where "j < length ?ps" "?ps ! j = Rejected"
      by (auto simp: in_set_conv_nth)
    with assms show False by (simp add: devPromises_nth nth_enumerate_eq)
  qed
  from promiseAll_total [OF this] obtain rs where "promiseAll ?ps = Inr rs" by blast
  with False show ?thesis by (simp add: devSwarmNode_def Let_def)
qed

lemma devSwarmNode_changes:
  assumes "devSwarmNode g s = Inr s'" and "workingAgents s \<noteq> []"
  shows "\<exists>new. codeChanges s' = codeChanges s @ new
           \<and> agents s' = map (\<lambda>agent. if list_ex (\<lambda>c. agentId c = agent_id agent) new
                                  then agent\<lparr> agent_status := Idle, progress := Some 100 \<rparr>
                                  else agent) (agents s)
           \<and> (\<forall>c. c \<in> set new \<longleftrightarrow>
                  (\<exists>j < length (workingAgents s).
                     devPromise g s (j, workingAgents s ! j) = Fulfilled (Some c)))"
proof -
  let ?ps = "map (devPromise g s) (enumerate 0 (workingAgents s))"
  from devSwarmNode_Inr [OF assms] obtain rs where rs: "promiseAll ?ps = Inr rs"
    and s': "s' = s\<lparr> codeChanges := codeChanges s @ nonNull rs,
                       agents := map (\<lambda>agent. if list_ex (\<lambda>c. agentId c = agent_id agent) (nonNull rs)
                                  then agent\<lparr> agent_status := Idle, progress := Some 100 \<rparr>
                                  else agent) (agents s),
                       phase := PhReview \<rparr>"
    by blast
  from promiseAll_Inr [OF rs] have ps: "?ps = map Fulfilled rs" .
  then have len: "length rs = length (workingAgents s)"
    by (metis length_map length_enumerate)
  have mem: "c \<in> set (nonNull rs) \<longleftrightarrow>
          (\<exists>j < length (workingAgents s).
             devPromise g s (j, workingAgents s ! j) = Fulfilled (Some c))" for c
  proof
    assume "c \<in> set (nonNull rs)"
    then have "Some c \<in> set rs" by (simp add: set_nonNull)
    then obtain j where j: "j < length rs" and "rs ! j = Some c"
      by (auto simp: in_set_conv_nth)
    then have "map Fulfilled rs ! j = Fulfilled (Some c)" by simp
    with ps have "?ps ! j = Fulfilled (Some c)" by simp
    with j len show "\<exists>j < length (workingAgents s).
             devPromise g s (j, workingAgents s ! j) = Fulfilled (Some c)"
      by (auto simp: devPromises_nth nth_enumerate_eq)
  next
    assume "\<exists>j < length (workingAgents s).
             devPromise g s (j, workingAgents s ! j) = Fulfilled (Some c)"
    then obtain j where j: "j < length (workingAgents s)"
      and "devPromise g s (j, workingAgents s ! j) = Fulfilled (Some c)" by blast
    then have "?ps ! j = Fulfilled (Some c)" by (simp add: devPromises_nth nth_enumerate_eq)
    with ps have "map Fulfilled rs ! j = Fulfilled (Some c)" by simp
    with j len have "rs ! j = Some c" by simp
    with j len have "Some c \<in> set rs" by (metis nth_mem)
    then show "c \<in> set (nonNull rs)" by (simp add: set_nonNull)
  qed
  from s' have "codeChanges s' = codeChanges s @ nonNull rs"
    and "agents s' = map (\<lambda>agent. if list_ex (\<lambda>c. agentId c = agent_id agent) (nonNull rs)
                                  then agent\<lparr> agent_status := Idle, progress := Some 100 \<rparr>
                                  else agent) (agents s)"
    by simp_all
  with mem show ?thesis by blast
qed

text \<open>
  C7, amended. Let agent ids be pairwise distinct and let the \<open>i\<close>-th working agent
  hold an active story. If the service rejects the call for it, the execute phase rejects and
  there is no state update. If its output does not parse: the phase completes whenever no
  call is rejected; and when it completes, the new code changes are appended, none of them is
  by that agent, every working agent whose output parsed has its code change among them, the
  agent itself is unchanged (still working, still holding the story), and the active stories
  are unchanged (the story stays active and assigned).
\<close>

theorem failed_execution:
  assumes "distinct (map agent_id (agents s))"
    and "i < length (workingAgents s)"
    and "find (\<lambda>x. Some (story_id x) = assignedStory (workingAgents s ! i)) (activeStories s)
           = Some st"
  shows "(devGen g i (workingAgents s ! i) st = DevThrows \<longrightarrow>
            devSwarmNode g s = Inl GenerationFailed)
     \<and> (devGen g i (workingAgents s ! i) st = DevUnparseable \<longrightarrow>
          ((\<forall>j < length (workingAgents s).
               devPromise g s (j, workingAgents s ! j) \<noteq> Rejected) \<longrightarrow>
             (\<exists>s'. devSwarmNode g s = Inr s'))
          \<and> (\<forall>s'. devSwarmNode g s = Inr s' \<longrightarrow>
               (\<exists>new. codeChanges s' = codeChanges s @ new
                  \<and> (\<forall>c \<in> set new. agentId c \<noteq> agent_id (workingAgents s ! i))
                  \<and> (\<forall>j < length (workingAgents s). \<forall>st' fs ts msg.
                        find (\<lambda>x. Some (story_id x) = assignedStory (workingAgents s ! j))
                          (activeStories s) = Some st'
                        \<and> devGen g j (workingAgents s ! j) st' = DevParsed fs ts msg \<longrightarrow>
                        \<lparr> storyId = story_id st', agentId = agent_id (workingAgents s ! j),
                          files = fs @ ts, commitMessage = msg, change_status = Pending \<rparr>
                          \<in> set new))
               \<and> length (agents s') = length (agents s)
               \<and> (\<forall>k < length (agents s). agents s ! k = workingAgents s ! i \<longrightarrow>
                      agents s' ! k = agents s ! k
                      \<and> agent_status (agents s' ! k) = Working
                      \<and> assignedStory (agents s' ! k) = Some (story_id st))
               \<and> activeStories s' = activeStories s))"
proof (intro conjI impI allI)
  assume "devGen g i (workingAgents s ! i) st = DevThrows"
  with assms(3) have "devPromise g s (i, workingAgents s ! i) = Rejected"
    by (simp add: devPromise_def)
  with assms(2) show "devSwarmNode g s = Inl GenerationFailed"
    by (rule devSwarmNode_rejects)
next
  assume "\<forall>j < length (workingAgents s). devPromise g s (j, workingAgents s ! j) \<noteq> Rejected"
  then show "\<exists>s'. devSwarmNode g s = Inr s'" by (rule devSwarmNode_total)
next
  fix s'
  assume u: "devGen g i (workingAgents s ! i) st = DevUnparseable"
    and r: "devSwarmNode g s = Inr s'"
  let ?w = "workingAgents s ! i"
  from assms(2) have ne: "workingAgents s \<noteq> []" by auto
  from u assms(3) have pi: "devPromise g s (i, ?w) = Fulfilled None"
    by (simp add: devPromise_def)
  from devSwarmNode_changes [OF r ne] obtain new where
    cc: "codeChanges s' = codeChanges s @ new"
    and ag: "agents s' = map (\<lambda>agent. if list_ex (\<lambda>c. agentId c = agent_id agent) new
                                  then agent\<lparr> agent_status := Idle, progress := Some 100 \<rparr>
                                  else agent) (agents s)"
    and mem: "\<And>c. c \<in> set new \<longleftrightarrow>
                  (\<exists>j < length (workingAgents s).
                     devPromise g s (j, workingAgents s ! j) = Fulfilled (Some c))"
    by blast
  have none: "agentId c \<noteq> agent_id ?w" if c: "c \<in> set new" for c
  proof
    assume e: "agentId c = agent_id ?w"
    from c mem obtain j where j: "j < length (workingAgents s)"
      and pj: "devPromise g s (j, workingAgents s ! j) = Fulfilled (Some c)" by blast
    from devPromise_agentId [OF pj] e
    have "agent_id (workingAgents s ! j) = agent_id (workingAgents s ! i)"
      by simp
    with nth_eq_iff_index_eq [OF distinct_working [OF assms(1)], of j i] j assms(2)
    have "j = i" by simp
    with pj pi show False by simp
  qed
  have others: "\<lparr> storyId = story_id st', agentId = agent_id (workingAgents s ! j),
                  files = fs @ ts, commitMessage = msg, change_status = Pending \<rparr> \<in> set new"
    if "j < length (workingAgents s)"
      and "find (\<lambda>x. Some (story_id x) = assignedStory (workingAgents s ! j)) (activeStories s)
             = Some st' \<and> devGen g j (workingAgents s ! j) st' = DevParsed fs ts msg"
    for j st' fs ts msg
  proof -
    from that(2) have "devPromise g s (j, workingAgents s ! j) =
        Fulfilled (Some \<lparr> storyId = story_id st', agentId = agent_id (workingAgents s ! j),
                  files = fs @ ts, commitMessage = msg, change_status = Pending \<rparr>)"
      by (simp add: devPromise_def)
    with that(1) mem show ?thesis by blast
  qed
  from cc none others
  show "\<exists>new. codeChanges s' = codeChanges s @ new
          \<and> (\<forall>c \<in> set new. agentId c \<noteq> agent_id (workingAgents s ! i))
          \<and> (\<forall>j < length (workingAgents s). \<forall>st' fs ts msg.
                find (\<lambda>x. Some (story_id x) = assignedStory (workingAgents s ! j))
                  (activeStories s) = Some st'
                \<and> devGen g j (workingAgents s ! j) st' = DevParsed fs ts msg \<longrightarrow>
                \<lparr> storyId = story_id st', agentId = agent_id (workingAgents s ! j),
                  files = fs @ ts, commitMessage = msg, change_status = Pending \<rparr>
                  \<in> set new)"
    by blast
  from ag show "length (agents s') = length (agents s)" by simp
  from devSwarmNode_stories [OF r] show "activeStories s' = activeStories s" by simp
  fix k
  assume k: "k < length (agents s)" and e: "agents s ! k = ?w"
  from none have "\<not> list_ex (\<lambda>c. agentId c = agent_id ?w) new"
    by (auto simp: list_ex_iff)
  with ag k e show "agents s' ! k = agents s ! k" by simp
  moreover from assms(2) have "?w \<in> set (workingAgents s)" by simp
  then have "agent_status ?w = Working" by (simp add: workingAgents_def)
  moreover from assms(3) have "assignedStory ?w = Some (story_id st)"
    by (auto simp: find_Some_iff)
  ultimately show "agent_status (agents s' ! k) = Working"
    and "assignedStory (agents s' ! k) = Some (story_id st)"
    using e by simp_all
qed

theorem failed_execution_witness:
  "distinct (map agent_id (agents execState))
   \<and> 0 < length (workingAgents execState)
   \<and> devSwarmNode alwaysThrows execState = Inl GenerationFailed
   \<and> (\<exists>s'. devSwarmNode firstFails execState = Inr s'
          \<and> agents s' ! 0 = agents execState ! 0
          \<and> agent_status (agents s' ! 0) = Working
          \<and> assignedStory (agents s' ! 0) = Some ''A''
          \<and> activeStories s' = activeStories execState)"
proof -
  let ?a = "(mkAgent ''dev-1'')\<lparr> assignedStory := Some ''A'', agent_status := Working,
                                progress := Some 0 \<rparr>"
  let ?A = "(mkStory ''A'' [])\<lparr> assignedAgent := Some ''dev-1'', story_status := InProgress \<rparr>"
  have w0: "workingAgents execState ! 0 = ?a" and a0: "agents execState ! 0 = ?a"
    and len: "length (workingAgents execState) = 2" and la: "length (agents execState) = 2"
    by (simp_all add: workingAgents_def execState_def mkAgent_def)
  have d: "distinct (map agent_id (agents execState))"
    by (simp add: execState_def mkAgent_def)
  have i: "0 < length (workingAgents execState)" by (simp add: len)
  have f: "find (\<lambda>x. Some (story_id x) = assignedStory (workingAgents execState ! 0))
             (activeStories execState) = Some ?A"
    unfolding w0 by (simp add: execState_def mkAgent_def mkStory_def)
  have g1: "devGen alwaysThrows 0 (workingAgents execState ! 0) ?A = DevThrows"
    by (simp add: alwaysThrows_def)
  have g2: "devGen firstFails 0 (workingAgents execState ! 0) ?A = DevUnparseable"
    by (simp add: firstFails_def)
  have nr: "\<forall>j < length (workingAgents execState).
              devPromise firstFails execState (j, workingAgents execState ! j) \<noteq> Rejected"
    by (auto simp: devPromise_def firstFails_def split: option.splits)
  note r1 = failed_execution [OF d i f, of alwaysThrows, THEN conjunct1, THEN mp, OF g1]
  note T = failed_execution [OF d i f, of firstFails, THEN conjunct2, THEN mp, OF g2]
  from T [THEN conjunct1, THEN mp, OF nr]
  obtain s' where s': "devSwarmNode firstFails execState = Inr s'" ..
  note U = T [THEN conjunct2, THEN spec, THEN mp, OF s']
  note act = U [THEN conjunct2, THEN conjunct2, THEN conjunct2]
  note ags = U [THEN conjunct2, THEN conjunct2, THEN conjunct1]
  from ags [rule_format, of 0] have "agents s' ! 0 = agents execState ! 0"
    and "agent_status (agents s' ! 0) = Working"
    and "assignedStory (agents s' ! 0) = Some ''A''"
    by (simp_all add: la a0 w0 mkStory_def)
  with d i r1 s' act show ?thesis by blast
qed

end
